theory Spec2Isabelle
  imports Main
begin

section \<open>The goroutine manager of weblin (package goroutine)\<close>

text \<open>
  The package keeps a registry of named tasks, launches one goroutine per task behind a
  recovering wrapper, and stops them through cancellation contexts and wait groups.
  The embedding is a small-step model: the manager's fields, the task wrappers it points
  to, the contexts, and the goroutines it has launched form one state; every method of
  \<open>GoroutineManager\<close> is a function on that state; every launched goroutine advances
  by atomic actions chosen by the scheduler.
\<close>

subsection \<open>Values of the Go runtime\<close>

type_synonym addr = nat
  \<comment> \<open>the address of a \<open>taskWrapper\<close> allocated by \<open>&taskWrapper{...}\<close>\<close>
type_synonym cancel_id = nat
  \<comment> \<open>a \<open>context.CancelFunc\<close>: the identity of the cancellation signal it fires\<close>
type_synonym payload = string
  \<comment> \<open>the non-nil value a \<open>panic\<close> carries and \<open>recover()\<close> returns\<close>
type_synonym func = string
  \<comment> \<open>an opaque function value (\<open>func(ctx context.Context)\<close>, \<open>PanicHandleFunc\<close>)\<close>
type_synonym duration = int
  \<comment> \<open>\<open>time.Duration\<close>; the code only tests its sign and hands it to the timer\<close>

text \<open>
  \<open>context.Background()\<close> is never done. \<open>context.WithCancel(parent)\<close> yields a
  context that is done as soon as its own cancel function has been called or its parent
  is done.
\<close>

datatype ctx = Background | WithCancel cancel_id ctx

fun ctx_done :: "cancel_id set \<Rightarrow> ctx \<Rightarrow> bool" where
  "ctx_done C Background = False"
| "ctx_done C (WithCancel c parent) = (c \<in> C \<or> ctx_done C parent)"

text \<open>How a call of an opaque function ends: it returns, or it panics with a payload.\<close>

datatype outcome = Normal | Panic payload

text \<open>
  What the caller of a blocking operation gets: \<open>Return r\<close>, or nothing at all when the
  operation is still blocked after all the concurrent activity it was given.
\<close>

datatype 'r call = Return 'r | NoReturn

subsection \<open>part\_003: the result of a bounded wait\<close>

datatype WaitError = WaitSuccess | WaitTimeout | WaitInvalidParam

subsection \<open>part\_004: the data of the manager\<close>

record taskWrapper =
  childWG :: int
  childCtx :: ctx
  childCancel :: cancel_id
  task :: func

text \<open>
  A goroutine launched by \<open>StartAll\<close> or \<open>Start\<close> holds the pointer \<open>tw\<close> it was
  given and is at one of the points of the wrapper:
  \<^item> \<open>PcTask\<close>: inside \<open>tw.task(tw.childCtx)\<close>;
  \<^item> \<open>PcRecover o\<close>: the task has ended with \<open>o\<close>, the deferred function is about
    to evaluate \<open>recover()\<close>;
  \<^item> \<open>PcHandler p\<close>: inside \<open>gm.PanicHandler(err)\<close>;
  \<^item> \<open>PcChildDone\<close>: about to execute \<open>tw.childWG.Done()\<close>;
  \<^item> \<open>PcParentDone\<close>: about to execute \<open>gm.parentWG.Done()\<close>;
  \<^item> \<open>PcExit\<close>: the goroutine has ended.
\<close>

datatype pc = PcTask | PcRecover outcome | PcHandler payload
  | PcChildDone | PcParentDone | PcExit

record goroutine =
  tw :: addr
  pc :: pc

text \<open>
  The fields of \<open>GoroutineManager\<close> (the mutex is implicit: the methods are atomic
  with respect to each other), followed by the part of the runtime they act on: the heap
  of task wrappers, the goroutines launched so far, the cancel functions that have been
  called, the source of fresh cancellation signals, the payloads the panic handler has
  been invoked with, and whether an unrecovered panic has terminated the process.
\<close>

record gm_state =
  PanicHandler :: "func option"
  parentWG :: int
  parentCtx :: ctx
  parentCancel :: cancel_id
  tasks :: "string \<rightharpoonup> addr"
  heap :: "taskWrapper list"
  pool :: "goroutine list"
  canceled :: "cancel_id set"
  next_cancel :: cancel_id
  handler_calls :: "payload list"
  crashed :: "payload option"

datatype error =
    TaskTimeout string duration
    \<comment> \<open>"goroutine was not terminated within the specified timeout(goroutine: ..., timeout: ...)"\<close>
  | AllTimeout duration
    \<comment> \<open>"goroutines were not terminated within the specified timeout(timeout: ...)"\<close>
  | TaskNotExist string
    \<comment> \<open>"task does not exist (...)"\<close>

subsection \<open>Primitives of \<open>context\<close> and \<open>sync\<close>\<close>

definition context_WithCancel :: "ctx \<Rightarrow> gm_state \<Rightarrow> (ctx \<times> cancel_id) \<times> gm_state" where
  "context_WithCancel parent s =
     ((WithCancel (next_cancel s) parent, next_cancel s),
      s\<lparr>next_cancel := Suc (next_cancel s)\<rparr>)"

definition call_cancel :: "cancel_id \<Rightarrow> gm_state \<Rightarrow> gm_state" where
  "call_cancel c s = s\<lparr>canceled := insert c (canceled s)\<rparr>"

definition heap_upd :: "addr \<Rightarrow> (taskWrapper \<Rightarrow> taskWrapper) \<Rightarrow> gm_state \<Rightarrow> gm_state" where
  "heap_upd a f s = s\<lparr>heap := (heap s)[a := f (heap s ! a)]\<rparr>"

definition parentWG_Add :: "gm_state \<Rightarrow> gm_state" where
  "parentWG_Add s = s\<lparr>parentWG := parentWG s + 1\<rparr>"

definition childWG_Add :: "addr \<Rightarrow> gm_state \<Rightarrow> gm_state" where
  "childWG_Add a s = heap_upd a (\<lambda>t. t\<lparr>childWG := childWG t + 1\<rparr>) s"

definition go :: "addr \<Rightarrow> gm_state \<Rightarrow> gm_state" where
  "go a s = s\<lparr>pool := pool s @ [\<lparr>tw = a, pc = PcTask\<rparr>]\<rparr>"

text \<open>
  \<open>WaitGroup.Done\<close> panics when the counter would become negative. It is called from the
  deferred function, after \<open>recover()\<close>, so such a panic would end the process.
\<close>

definition negative_counter :: payload where
  "negative_counter = ''sync: negative WaitGroup counter''"

definition childWG_Done :: "addr \<Rightarrow> gm_state \<Rightarrow> gm_state option" where
  "childWG_Done a s =
     (if childWG (heap s ! a) \<le> 0 then None
      else Some (heap_upd a (\<lambda>t. t\<lparr>childWG := childWG t - 1\<rparr>) s))"

definition parentWG_Done :: "gm_state \<Rightarrow> gm_state option" where
  "parentWG_Done s =
     (if parentWG s \<le> 0 then None else Some (s\<lparr>parentWG := parentWG s - 1\<rparr>))"

subsection \<open>The wrapper run by every launched goroutine\<close>

text \<open>
  \<^verbatim>\<open>
  go func(tw *taskWrapper) {
      defer func() {
          if err := recover(); err != nil {
              if gm.PanicHandler != nil {
                  gm.PanicHandler(err)
              }
          }
          tw.childWG.Done()
          gm.parentWG.Done()
      }()
      tw.task(tw.childCtx)
  }(tmpTask)
  \<close>
  The scheduler picks a goroutine \<open>g\<close> and lets it take one atomic action. \<open>Ends g o\<close>
  is the end, with outcome \<open>o\<close>, of the opaque call the goroutine is in (the task, or the
  panic handler); \<open>Step g\<close> is the next statement of the wrapper itself. An action that
  does not fit the goroutine's point, or names no goroutine, changes nothing, and a
  process that has crashed executes nothing.
\<close>

datatype gaction = Ends nat outcome | Step nat

definition set_pc :: "nat \<Rightarrow> pc \<Rightarrow> gm_state \<Rightarrow> gm_state" where
  "set_pc g p s = s\<lparr>pool := (pool s)[g := (pool s ! g)\<lparr>pc := p\<rparr>]\<rparr>"

definition crash :: "payload \<Rightarrow> gm_state \<Rightarrow> gm_state" where
  "crash p s = s\<lparr>crashed := Some p\<rparr>"

fun wrapper_ends :: "nat \<Rightarrow> outcome \<Rightarrow> pc \<Rightarrow> gm_state \<Rightarrow> gm_state" where
  "wrapper_ends g oc PcTask s = set_pc g (PcRecover oc) s"
| "wrapper_ends g Normal (PcHandler p) s = set_pc g PcChildDone s"
| "wrapper_ends g (Panic q) (PcHandler p) s = crash q s"
| "wrapper_ends g oc _ s = s"

fun wrapper_step :: "nat \<Rightarrow> addr \<Rightarrow> pc \<Rightarrow> gm_state \<Rightarrow> gm_state" where
  "wrapper_step g a (PcRecover Normal) s = set_pc g PcChildDone s"
| "wrapper_step g a (PcRecover (Panic p)) s =
     (case PanicHandler s of
        None \<Rightarrow> set_pc g PcChildDone s
      | Some h \<Rightarrow> set_pc g (PcHandler p) (s\<lparr>handler_calls := handler_calls s @ [p]\<rparr>))"
| "wrapper_step g a PcChildDone s =
     (case childWG_Done a s of
        None \<Rightarrow> crash negative_counter s
      | Some s' \<Rightarrow> set_pc g PcParentDone s')"
| "wrapper_step g a PcParentDone s =
     (case parentWG_Done s of
        None \<Rightarrow> crash negative_counter s
      | Some s' \<Rightarrow> set_pc g PcExit s')"
| "wrapper_step g a _ s = s"

fun gexec :: "gaction \<Rightarrow> gm_state \<Rightarrow> gm_state" where
  "gexec (Ends g oc) s =
     (if crashed s \<noteq> None \<or> length (pool s) \<le> g then s
      else wrapper_ends g oc (pc (pool s ! g)) s)"
| "gexec (Step g) s =
     (if crashed s \<noteq> None \<or> length (pool s) \<le> g then s
      else wrapper_step g (tw (pool s ! g)) (pc (pool s ! g)) s)"

fun run :: "gaction list \<Rightarrow> gm_state \<Rightarrow> gm_state" where
  "run [] s = s"
| "run (a # as) s = run as (gexec a s)"

subsection \<open>part\_003: \<open>WaitGroupWithTimeout\<close>\<close>

text \<open>
  A \<open>*sync.WaitGroup\<close> is \<open>nil\<close>, \<open>&gm.parentWG\<close> or \<open>&t.childWG\<close>.
\<close>

datatype wg_ref = ParentWG | ChildWG addr

fun counter :: "gm_state \<Rightarrow> wg_ref \<Rightarrow> int" where
  "counter s ParentWG = parentWG s"
| "counter s (ChildWG a) = childWG (heap s ! a)"

text \<open>
  A wait happens while the launched goroutines go on. What they do during one blocking
  call, and how the runtime resolves the call's \<open>select\<close>, is the call's environment:
  \<^item> \<open>sched\<close>: the actions the goroutines take from the start of the call on, in order
    (a finite list: after it nothing moves any more);
  \<^item> \<open>deadline\<close>: how many of these actions have happened when the timer of
    \<open>time.After(timeout)\<close> fires. How a duration translates into a number of actions
    is a matter of real time and left to the environment;
  \<^item> \<open>pick_done\<close>: which case \<open>select\<close> takes when both channels are ready at once.
\<close>

record env =
  sched :: "gaction list"
  deadline :: nat
  pick_done :: bool

text \<open>\<open>wg.Wait()\<close> returns once the counter is zero.\<close>

fun wg_Wait :: "wg_ref \<Rightarrow> gaction list \<Rightarrow> gm_state \<Rightarrow> unit call \<times> gm_state" where
  "wg_Wait w [] s = (if counter s w = 0 then (Return (), s) else (NoReturn, s))"
| "wg_Wait w (a # as) s =
     (if counter s w = 0 then (Return (), s) else wg_Wait w as (gexec a s))"

text \<open>
  The helper goroutine closes \<open>done\<close> once \<open>wg.Wait()\<close> has returned; the \<open>select\<close>
  returns \<open>WaitSuccess\<close> when \<open>done\<close> is closed first and \<open>WaitTimeout\<close> when the
  timer fires first. The timer always fires in the end.
\<close>

fun select_done_timer ::
  "wg_ref \<Rightarrow> nat \<Rightarrow> bool \<Rightarrow> gaction list \<Rightarrow> gm_state \<Rightarrow> WaitError \<times> gm_state" where
  "select_done_timer w 0 pick as s =
     (if counter s w = 0 \<and> pick then (WaitSuccess, s) else (WaitTimeout, s))"
| "select_done_timer w (Suc d) pick [] s =
     (if counter s w = 0 then (WaitSuccess, s) else (WaitTimeout, s))"
| "select_done_timer w (Suc d) pick (a # as) s =
     (if counter s w = 0 then (WaitSuccess, s)
      else select_done_timer w d pick as (gexec a s))"

definition WaitGroupWithTimeout ::
  "env \<Rightarrow> wg_ref option \<Rightarrow> duration \<Rightarrow> gm_state \<Rightarrow> WaitError call \<times> gm_state" where
  "WaitGroupWithTimeout e wg timeout s =
     (case wg of
        None \<Rightarrow> (Return WaitInvalidParam, s)
      | Some w \<Rightarrow>
          if timeout < 0 then
            (case wg_Wait w (sched e) s of
               (Return u, s') \<Rightarrow> (Return WaitSuccess, s')
             | (NoReturn, s') \<Rightarrow> (NoReturn, s'))
          else
            (case select_done_timer w (deadline e) (pick_done e) (sched e) s of
               (r, s') \<Rightarrow> (Return r, s')))"

subsection \<open>part\_004: the methods of \<open>GoroutineManager\<close>\<close>

definition NewGoroutineManager :: gm_state where
  "NewGoroutineManager =
     \<lparr>PanicHandler = None, parentWG = 0,
      parentCtx = WithCancel 0 Background, parentCancel = 0,
      tasks = Map.empty, heap = [], pool = [],
      canceled = {}, next_cancel = 1, handler_calls = [], crashed = None\<rparr>"

text \<open>The assignment \<open>gm.PanicHandler = h\<close> made by the caller (cmd/operation.go).\<close>

definition set_PanicHandler :: "func option \<Rightarrow> gm_state \<Rightarrow> gm_state" where
  "set_PanicHandler h s = s\<lparr>PanicHandler := h\<rparr>"

definition AddTask :: "string \<Rightarrow> func \<Rightarrow> gm_state \<Rightarrow> gm_state" where
  "AddTask name f s =
     (case context_WithCancel (parentCtx s) s of
        ((c, cancel), s1) \<Rightarrow>
          s1\<lparr>heap := heap s1 @ [\<lparr>childWG = 0, childCtx = c, childCancel = cancel, task = f\<rparr>],
             tasks := (tasks s1)(name \<mapsto> length (heap s1))\<rparr>)"

definition RemoveTask ::
  "string \<Rightarrow> duration \<Rightarrow> env \<Rightarrow> gm_state \<Rightarrow> error option call \<times> gm_state" where
  "RemoveTask name timeout e s =
     (case tasks s name of
        None \<Rightarrow> (Return None, s)
      | Some t \<Rightarrow>
          (case WaitGroupWithTimeout e (Some (ChildWG t)) timeout
                  (call_cancel (childCancel (heap s ! t)) s) of
             (NoReturn, s') \<Rightarrow> (NoReturn, s')
           | (Return r, s') \<Rightarrow>
               if r \<noteq> WaitSuccess then (Return (Some (TaskTimeout name timeout)), s')
               else (Return None, s'\<lparr>tasks := (tasks s')(name := None)\<rparr>)))"

text \<open>
  \<open>StartAll\<close> and \<open>Start\<close> hold the mutex, but the goroutines they launch do not
  take it: they run while the launching loop goes on. What the goroutines do between the
  statements of one launch is the launch's interleaving: the actions taken after
  \<open>gm.parentWG.Add(1)\<close>, after \<open>t.childWG.Add(1)\<close>, and after the \<open>go\<close>
  statement. (The other methods are atomic up to their wait: the goroutines write nothing
  those methods read before it.)
\<close>

record interleaving =
  after_parentAdd :: "gaction list"
  after_childAdd :: "gaction list"
  after_go :: "gaction list"

definition quiet :: interleaving where
  "quiet = \<lparr>after_parentAdd = [], after_childAdd = [], after_go = []\<rparr>"

text \<open>
  \<open>for _, t := range gm.tasks\<close> visits every entry once, in an order Go leaves open:
  \<open>StartAll\<close> takes the keys in the order of the visit, each with the interleaving of
  its launch.
\<close>

fun StartAll :: "(string \<times> interleaving) list \<Rightarrow> gm_state \<Rightarrow> gm_state" where
  "StartAll [] s = s"
| "StartAll ((k, iv) # ks) s =
     (case tasks s k of
        None \<Rightarrow> StartAll ks s
      | Some t \<Rightarrow>
          StartAll ks
            (run (after_go iv) (go t
              (run (after_childAdd iv) (childWG_Add t
                (run (after_parentAdd iv) (parentWG_Add s)))))))"

definition range_order :: "string list \<Rightarrow> gm_state \<Rightarrow> bool" where
  "range_order ks s \<longleftrightarrow> distinct ks \<and> set ks = dom (tasks s)"

definition StopAll :: "duration \<Rightarrow> env \<Rightarrow> gm_state \<Rightarrow> error option call \<times> gm_state" where
  "StopAll timeout e s =
     (case WaitGroupWithTimeout e (Some ParentWG) timeout (call_cancel (parentCancel s) s) of
        (NoReturn, s') \<Rightarrow> (NoReturn, s')
      | (Return r, s') \<Rightarrow>
          if r \<noteq> WaitSuccess then (Return (Some (AllTimeout timeout)), s')
          else (Return None, s'))"

definition Start :: "string \<Rightarrow> interleaving \<Rightarrow> gm_state \<Rightarrow> error option \<times> gm_state" where
  "Start name iv s =
     (case tasks s name of
        None \<Rightarrow> (Some (TaskNotExist name), s)
      | Some t \<Rightarrow>
          (None,
           run (after_go iv) (go t
             (run (after_childAdd iv) (childWG_Add t
               (run (after_parentAdd iv) (parentWG_Add s)))))))"

definition Stop ::
  "string \<Rightarrow> duration \<Rightarrow> env \<Rightarrow> gm_state \<Rightarrow> error option call \<times> gm_state" where
  "Stop name timeout e s =
     (case tasks s name of
        None \<Rightarrow> (Return None, s)
      | Some t \<Rightarrow>
          (case WaitGroupWithTimeout e (Some (ChildWG t)) timeout
                  (call_cancel (childCancel (heap s ! t)) s) of
             (NoReturn, s') \<Rightarrow> (NoReturn, s')
           | (Return r, s') \<Rightarrow>
               if r \<noteq> WaitSuccess then (Return (Some (TaskTimeout name timeout)), s')
               else (Return None, s')))"

subsection \<open>The states the program can be in\<close>

text \<open>
  A state is reachable when it results from \<open>NewGoroutineManager\<close> by calls of the
  methods, assignments of the panic handler, and actions of launched goroutines. A process
  that has crashed makes no further call.
\<close>

inductive reachable :: "gm_state \<Rightarrow> bool" where
  r_new: "reachable NewGoroutineManager"
| r_handler: "reachable s \<Longrightarrow> crashed s = None \<Longrightarrow> reachable (set_PanicHandler h s)"
| r_add: "reachable s \<Longrightarrow> crashed s = None \<Longrightarrow> reachable (AddTask name f s)"
| r_remove: "reachable s \<Longrightarrow> crashed s = None \<Longrightarrow> reachable (snd (RemoveTask name timeout e s))"
| r_start_all: "reachable s \<Longrightarrow> crashed s = None \<Longrightarrow> range_order (map fst ks) s \<Longrightarrow>
     reachable (StartAll ks s)"
| r_stop_all: "reachable s \<Longrightarrow> crashed s = None \<Longrightarrow> reachable (snd (StopAll timeout e s))"
| r_start: "reachable s \<Longrightarrow> crashed s = None \<Longrightarrow> reachable (snd (Start name iv s))"
| r_stop: "reachable s \<Longrightarrow> crashed s = None \<Longrightarrow> reachable (snd (Stop name timeout e s))"
| r_go: "reachable s \<Longrightarrow> reachable (gexec a s)"

text \<open>
  A goroutine holds the wait group of its task until it has executed
  \<open>tw.childWG.Done()\<close>, and the wait group of the manager until it has executed
  \<open>gm.parentWG.Done()\<close>.
\<close>

definition holds_child :: "pc \<Rightarrow> bool" where
  "holds_child p \<longleftrightarrow> p \<noteq> PcParentDone \<and> p \<noteq> PcExit"

definition holds_parent :: "pc \<Rightarrow> bool" where
  "holds_parent p \<longleftrightarrow> p \<noteq> PcExit"

definition outstanding_child :: "addr \<Rightarrow> gm_state \<Rightarrow> nat" where
  "outstanding_child a s = length (filter (\<lambda>g. tw g = a \<and> holds_child (pc g)) (pool s))"

definition outstanding_parent :: "gm_state \<Rightarrow> nat" where
  "outstanding_parent s = length (filter (\<lambda>g. holds_parent (pc g)) (pool s))"

text \<open>
  The invariants of the reachable states: pointers are allocated and registry entries do
  not share a wrapper; each counter equals the number of goroutines holding it; every task
  context is a child, with its own cancellation signal, of the context of the manager.
\<close>

definition inv_heap :: "gm_state \<Rightarrow> bool" where
  "inv_heap s \<longleftrightarrow>
     (\<forall>n a. tasks s n = Some a \<longrightarrow> a < length (heap s)) \<and>
     (\<forall>g \<in> set (pool s). tw g < length (heap s)) \<and>
     (\<forall>n m a. tasks s n = Some a \<and> tasks s m = Some a \<longrightarrow> n = m)"

text \<open>
  Between the \<open>Add\<close> calls of a launch and its \<open>go\<close> statement the counters are
  ahead of the goroutines: by \<open>p\<close> for the manager, by \<open>c a\<close> for the wrapper at
  \<open>a\<close>.
\<close>

definition inv_wg_ahead :: "int \<Rightarrow> (addr \<Rightarrow> int) \<Rightarrow> gm_state \<Rightarrow> bool" where
  "inv_wg_ahead p c s \<longleftrightarrow>
     parentWG s = int (outstanding_parent s) + p \<and>
     (\<forall>a < length (heap s). childWG (heap s ! a) = int (outstanding_child a s) + c a)"

definition inv_wg :: "gm_state \<Rightarrow> bool" where
  "inv_wg s \<longleftrightarrow> inv_wg_ahead 0 (\<lambda>a. 0) s"

definition inv_ctx :: "gm_state \<Rightarrow> bool" where
  "inv_ctx s \<longleftrightarrow>
     parentCtx s = WithCancel (parentCancel s) Background \<and>
     parentCancel s < next_cancel s \<and>
     (\<forall>a < length (heap s).
        childCtx (heap s ! a) = WithCancel (childCancel (heap s ! a)) (parentCtx s) \<and>
        parentCancel s < childCancel (heap s ! a) \<and>
        childCancel (heap s ! a) < next_cancel s) \<and>
     (\<forall>a < length (heap s). \<forall>b < length (heap s).
        childCancel (heap s ! a) = childCancel (heap s ! b) \<longrightarrow> a = b) \<and>
     (\<forall>c \<in> canceled s. c < next_cancel s)"

definition gm_inv_ahead :: "int \<Rightarrow> (addr \<Rightarrow> int) \<Rightarrow> gm_state \<Rightarrow> bool" where
  "gm_inv_ahead p c s \<longleftrightarrow> inv_heap s \<and> inv_wg_ahead p c s \<and> inv_ctx s"

definition gm_inv :: "gm_state \<Rightarrow> bool" where
  "gm_inv s \<longleftrightarrow> gm_inv_ahead 0 (\<lambda>a. 0) s"

text \<open>
  The number of concurrent actions after which a counter is zero for the first time, if
  it ever is.
\<close>

fun zero_after :: "wg_ref \<Rightarrow> gaction list \<Rightarrow> gm_state \<Rightarrow> nat option" where
  "zero_after w [] s = (if counter s w = 0 then Some 0 else None)"
| "zero_after w (a # as) s =
     (if counter s w = 0 then Some 0 else map_option Suc (zero_after w as (gexec a s)))"

subsection \<open>cmd/operation.go: how weblin uses the manager\<close>

text \<open>
  \<open>start\<close> creates the manager, installs \<open>o.panicHandler\<close>, registers the task
  \<open>"server"\<close> with \<open>server.Run\<close> (\<open>initialization\<close>) and calls \<open>StartAll\<close>.
\<close>

definition weblin_registered :: gm_state where
  "weblin_registered =
     AddTask ''server'' ''server.Run''
       (set_PanicHandler (Some ''panicHandler'') NewGoroutineManager)"

definition weblin_started :: gm_state where
  "weblin_started = StartAll [(''server'', quiet)] weblin_registered"

text \<open>
  What the goroutine of \<open>"server"\<close> does when \<open>server.Run\<close> returns: the task ends,
  \<open>recover()\<close> yields \<open>nil\<close>, and the two \<open>Done\<close> calls follow.
\<close>

definition server_returns :: "gaction list" where
  "server_returns = [Ends 0 Normal, Step 0, Step 0, Step 0]"

text \<open>
  Two states agree on everything a goroutine of the pool never writes: the registry, the
  cancellations, the handler, the contexts and functions of the wrappers, and which
  wrapper each goroutine holds.
\<close>

definition same_registry :: "gm_state \<Rightarrow> gm_state \<Rightarrow> bool" where
  "same_registry s s' \<longleftrightarrow>
     tasks s' = tasks s \<and> canceled s' = canceled s \<and> PanicHandler s' = PanicHandler s \<and>
     parentCtx s' = parentCtx s \<and> parentCancel s' = parentCancel s \<and>
     next_cancel s' = next_cancel s \<and> length (heap s') = length (heap s) \<and>
     map tw (pool s') = map tw (pool s) \<and>
     (\<forall>b. childCtx (heap s' ! b) = childCtx (heap s ! b) \<and>
          childCancel (heap s' ! b) = childCancel (heap s ! b) \<and>
          task (heap s' ! b) = task (heap s ! b))"

text \<open>
  The scenario of two tasks: \<open>"a"\<close> and \<open>"b"\<close> are registered and started together.
\<close>

definition two_registered :: gm_state where
  "two_registered = AddTask ''b'' ''b.Run'' (AddTask ''a'' ''a.Run'' NewGoroutineManager)"

definition two_started :: gm_state where
  "two_started = StartAll [(''a'', quiet), (''b'', quiet)] two_registered"

definition b_returns :: "gaction list" where
  "b_returns = [Ends 1 Normal, Step 1, Step 1, Step 1]"

text \<open>
  A visit of \<open>StartAll\<close> in which the goroutine of \<open>"a"\<close> runs to its end while
  \<open>"b"\<close> is being launched, between the two \<open>Add\<close> calls.
\<close>

definition a_ends_during_b :: "(string \<times> interleaving) list" where
  "a_ends_during_b =
     [(''a'', quiet),
      (''b'', \<lparr>after_parentAdd = [Ends 0 Normal, Step 0, Step 0, Step 0],
               after_childAdd = [], after_go = []\<rparr>)]"

text \<open>
  The goroutine of \<open>"server"\<close> panics, the handler is invoked, and the handler panics.
\<close>

definition handler_panics :: gm_state where
  "handler_panics =
     run [Ends 0 (Panic ''task failed''), Step 0, Ends 0 (Panic ''handler failed'')]
       weblin_started"

section \<open>Frame properties of the goroutine actions\<close>

lemma nth_update_childWG:
  "b < length xs \<Longrightarrow>
   childCtx ((xs[a := (xs ! a)\<lparr>childWG := v\<rparr>]) ! b) = childCtx (xs ! b) \<and>
   childCancel ((xs[a := (xs ! a)\<lparr>childWG := v\<rparr>]) ! b) = childCancel (xs ! b) \<and>
   task ((xs[a := (xs ! a)\<lparr>childWG := v\<rparr>]) ! b) = task (xs ! b) \<and>
   childWG ((xs[a := (xs ! a)\<lparr>childWG := v\<rparr>]) ! b) = (if b = a then v else childWG (xs ! b))"
  by (cases "b = a") simp_all

lemma nth_update_childWG_any:
  "childCtx ((xs[a := (xs ! a)\<lparr>childWG := v\<rparr>]) ! b) = childCtx (xs ! b) \<and>
   childCancel ((xs[a := (xs ! a)\<lparr>childWG := v\<rparr>]) ! b) = childCancel (xs ! b) \<and>
   task ((xs[a := (xs ! a)\<lparr>childWG := v\<rparr>]) ! b) = task (xs ! b)"
proof (cases "a < length xs")
  case True
  then show ?thesis by (cases "b = a") simp_all
next
  case False
  then show ?thesis by (simp add: list_update_beyond)
qed

lemma map_tw_set_pc: "map tw (xs[g := (xs ! g)\<lparr>pc := p\<rparr>]) = map tw xs"
proof (cases "g < length xs")
  case True
  then have "(map tw xs)[g := tw (xs ! g)] = (map tw xs)[g := map tw xs ! g]" by simp
  then show ?thesis by (simp add: map_update)
next
  case False
  then show ?thesis by (simp add: list_update_beyond)
qed

lemma same_registry_refl: "same_registry s s"
  by (simp add: same_registry_def)

lemma same_registry_trans: "same_registry s s' \<Longrightarrow> same_registry s' s'' \<Longrightarrow> same_registry s s''"
  by (simp add: same_registry_def)

lemma same_registry_set_pc: "same_registry s (set_pc g p s)"
  by (simp add: same_registry_def set_pc_def map_tw_set_pc)

lemma same_registry_crash: "same_registry s (crash p s)"
  by (simp add: same_registry_def crash_def)

lemma same_registry_heap_upd: "same_registry s (heap_upd a (\<lambda>t. t\<lparr>childWG := f t\<rparr>) s)"
  by (simp add: same_registry_def heap_upd_def nth_update_childWG_any)

lemma same_registry_wrapper_ends: "same_registry s (wrapper_ends g oc p s)"
  by (cases "(g, oc, p, s)" rule: wrapper_ends.cases)
     (simp_all add: same_registry_set_pc same_registry_crash same_registry_refl)

lemma same_registry_wrapper_step: "same_registry s (wrapper_step g a p s)"
proof (cases "(g, a, p, s)" rule: wrapper_step.cases)
  case (2 g' a' q s')
  have "same_registry s (s\<lparr>handler_calls := handler_calls s @ [q]\<rparr>)"
    by (simp add: same_registry_def)
  then have "same_registry s (set_pc g (PcHandler q) (s\<lparr>handler_calls := handler_calls s @ [q]\<rparr>))"
    by (rule same_registry_trans) (rule same_registry_set_pc)
  with 2 show ?thesis by (simp add: same_registry_set_pc split: option.splits)
next
  case (3 g' a' s')
  have "same_registry s (set_pc g PcParentDone (heap_upd a (\<lambda>t. t\<lparr>childWG := childWG t - 1\<rparr>) s))"
    by (rule same_registry_trans[OF same_registry_heap_upd same_registry_set_pc])
  with 3 show ?thesis by (simp add: childWG_Done_def same_registry_crash)
next
  case (4 g' a' s')
  have "same_registry s (s\<lparr>parentWG := parentWG s - 1\<rparr>)" by (simp add: same_registry_def)
  then have "same_registry s (set_pc g PcExit (s\<lparr>parentWG := parentWG s - 1\<rparr>))"
    by (rule same_registry_trans) (rule same_registry_set_pc)
  with 4 show ?thesis by (simp add: parentWG_Done_def same_registry_crash)
qed (simp_all add: same_registry_set_pc same_registry_refl)

lemma same_registry_gexec: "same_registry s (gexec a s)"
  by (cases a) (simp_all add: same_registry_refl same_registry_wrapper_ends same_registry_wrapper_step)

lemma same_registry_run: "same_registry s (run as s)"
proof (induction as arbitrary: s)
  case Nil show ?case by (simp add: same_registry_refl)
next
  case (Cons a as)
  have "same_registry s (gexec a s)" by (rule same_registry_gexec)
  moreover have "same_registry (gexec a s) (run as (gexec a s))" by (rule Cons.IH)
  ultimately show ?case by (simp add: same_registry_trans[of s "gexec a s"])
qed

lemma inv_heap_same_registry:
  assumes "same_registry s s'" "inv_heap s"
  shows "inv_heap s'"
proof -
  from assms(1) have e: "tasks s' = tasks s" "length (heap s') = length (heap s)"
    "map tw (pool s') = map tw (pool s)"
    by (simp_all add: same_registry_def)
  have "set (map tw (pool s')) = set (map tw (pool s))" by (simp only: e)
  then have "tw ` set (pool s') = tw ` set (pool s)" by simp
  then have "\<forall>g \<in> set (pool s'). tw g \<in> tw ` set (pool s)" by blast
  with assms(2) have "\<forall>g \<in> set (pool s'). tw g < length (heap s)"
    by (auto simp: inv_heap_def)
  with assms(2) show ?thesis by (simp add: inv_heap_def e)
qed

lemma inv_ctx_same_registry:
  assumes "same_registry s s'" "inv_ctx s"
  shows "inv_ctx s'"
  using assms by (simp add: same_registry_def inv_ctx_def)

section \<open>The counters count the goroutines\<close>

lemma filter_update_count:
  "i < length xs \<Longrightarrow>
   int (length (filter P (xs[i := y]))) =
   int (length (filter P xs)) - of_bool (P (xs ! i)) + of_bool (P y)"
proof (induction xs arbitrary: i)
  case Nil then show ?case by simp
next
  case (Cons x xs)
  then show ?case by (cases i) auto
qed

lemma filter_pos: "i < length xs \<Longrightarrow> P (xs ! i) \<Longrightarrow> 0 < length (filter P xs)"
  by (rule length_pos_if_in_set[of "xs ! i"]) simp

lemma set_pc_heap_upd_fields:
  "heap (set_pc g p s) = heap s" "parentWG (set_pc g p s) = parentWG s"
  "pool (heap_upd a f s) = pool s" "parentWG (heap_upd a f s) = parentWG s"
  "length (heap (heap_upd a f s)) = length (heap s)"
  "pool (set_pc g p s) = (pool s)[g := (pool s ! g)\<lparr>pc := p\<rparr>]"
  by (simp_all add: set_pc_def heap_upd_def)

lemma child_outstanding_pos:
  assumes "inv_wg_ahead p c s" "inv_heap s" "g < length (pool s)"
    "holds_child (pc (pool s ! g))" "0 \<le> c (tw (pool s ! g))"
  shows "0 < childWG (heap s ! tw (pool s ! g))"
proof -
  let ?a = "tw (pool s ! g)"
  from assms(2,3) have a: "?a < length (heap s)" by (simp add: inv_heap_def)
  have "0 < outstanding_child ?a s"
    unfolding outstanding_child_def using assms(3,4) by (intro filter_pos[of g]) simp_all
  with assms(1,5) a show ?thesis by (simp add: inv_wg_ahead_def)
qed

lemma parent_outstanding_pos:
  assumes "inv_wg_ahead p c s" "g < length (pool s)" "holds_parent (pc (pool s ! g))" "0 \<le> p"
  shows "0 < parentWG s"
proof -
  have "0 < outstanding_parent s"
    unfolding outstanding_parent_def using assms(2,3) by (intro filter_pos[of g]) simp_all
  with assms(1,4) show ?thesis by (simp add: inv_wg_ahead_def)
qed

lemma inv_wg_set_pc:
  assumes "inv_wg_ahead p c s" "g < length (pool s)"
    "holds_child q = holds_child (pc (pool s ! g))"
    "holds_parent q = holds_parent (pc (pool s ! g))"
  shows "inv_wg_ahead p c (set_pc g q s)"
proof -
  have "outstanding_parent (set_pc g q s) = outstanding_parent s"
    using assms(2,4) filter_update_count[of g "pool s" "\<lambda>g. holds_parent (pc g)" "(pool s ! g)\<lparr>pc := q\<rparr>"]
    by (simp add: outstanding_parent_def set_pc_def)
  moreover have "outstanding_child a (set_pc g q s) = outstanding_child a s" for a
    using assms(2,3) filter_update_count[of g "pool s" "\<lambda>g. tw g = a \<and> holds_child (pc g)" "(pool s ! g)\<lparr>pc := q\<rparr>"]
    by (simp add: outstanding_child_def set_pc_def)
  moreover have "heap (set_pc g q s) = heap s" "parentWG (set_pc g q s) = parentWG s"
    by (simp_all add: set_pc_def)
  ultimately show ?thesis using assms(1) by (simp add: inv_wg_ahead_def)
qed

lemma inv_wg_child_done:
  assumes "inv_wg_ahead p c s" "g < length (pool s)" "pc (pool s ! g) = PcChildDone"
    "tw (pool s ! g) = a"
  shows "inv_wg_ahead p c
           (set_pc g PcParentDone (heap_upd a (\<lambda>t. t\<lparr>childWG := childWG t - 1\<rparr>) s))"
proof -
  let ?h = "heap_upd a (\<lambda>t. t\<lparr>childWG := childWG t - 1\<rparr>) s"
  let ?s = "set_pc g PcParentDone ?h"
  have op: "outstanding_parent ?s = outstanding_parent s"
    using assms(2,3) filter_update_count[of g "pool s" "\<lambda>g. holds_parent (pc g)" "(pool s ! g)\<lparr>pc := PcParentDone\<rparr>"]
    by (simp add: outstanding_parent_def set_pc_heap_upd_fields holds_parent_def)
  have oc: "int (outstanding_child b ?s) = int (outstanding_child b s) - (if b = a then 1 else 0)" for b
    using assms(2,3,4) filter_update_count[of g "pool s" "\<lambda>g. tw g = b \<and> holds_child (pc g)" "(pool s ! g)\<lparr>pc := PcParentDone\<rparr>"]
    by (auto simp add: outstanding_child_def set_pc_heap_upd_fields holds_child_def)
  have w: "childWG (heap ?s ! b) = (if b = a then childWG (heap s ! b) - 1 else childWG (heap s ! b))"
    if "b < length (heap s)" for b
    using nth_update_childWG[OF that, of a "childWG (heap s ! a) - 1"]
    by (simp add: set_pc_heap_upd_fields(1) heap_upd_def)
  have l: "length (heap ?s) = length (heap s)" "parentWG ?s = parentWG s"
    by (simp_all add: set_pc_heap_upd_fields)
  show ?thesis
    unfolding inv_wg_ahead_def l
  proof (intro conjI allI impI)
    show "parentWG s = int (outstanding_parent ?s) + p"
      using assms(1) op by (simp add: inv_wg_ahead_def)
    fix b assume b: "b < length (heap s)"
    with assms(1) have "childWG (heap s ! b) = int (outstanding_child b s) + c b"
      by (simp add: inv_wg_ahead_def)
    then show "childWG (heap ?s ! b) = int (outstanding_child b ?s) + c b"
      using w[OF b] oc[of b] by (cases "b = a") simp_all
  qed
qed

lemma inv_wg_parent_done:
  assumes "inv_wg_ahead p c s" "g < length (pool s)" "pc (pool s ! g) = PcParentDone"
  shows "inv_wg_ahead p c (set_pc g PcExit (s\<lparr>parentWG := parentWG s - 1\<rparr>))"
proof -
  let ?s = "set_pc g PcExit (s\<lparr>parentWG := parentWG s - 1\<rparr>)"
  have op: "int (outstanding_parent ?s) = int (outstanding_parent s) - 1"
    using assms(2,3) filter_update_count[of g "pool s" "\<lambda>g. holds_parent (pc g)" "(pool s ! g)\<lparr>pc := PcExit\<rparr>"]
    by (simp add: outstanding_parent_def set_pc_def holds_parent_def)
  have oc: "outstanding_child b ?s = outstanding_child b s" for b
    using assms(2,3) filter_update_count[of g "pool s" "\<lambda>g. tw g = b \<and> holds_child (pc g)" "(pool s ! g)\<lparr>pc := PcExit\<rparr>"]
    by (simp add: outstanding_child_def set_pc_def holds_child_def)
  have l: "heap ?s = heap s" "parentWG ?s = parentWG s - 1"
    by (simp_all add: set_pc_def)
  show ?thesis
    unfolding inv_wg_ahead_def l
  proof (intro conjI allI impI)
    show "parentWG s - 1 = int (outstanding_parent ?s) + p"
      using assms(1) op by (simp add: inv_wg_ahead_def)
    fix b assume b: "b < length (heap s)"
    with assms(1) show "childWG (heap s ! b) = int (outstanding_child b ?s) + c b"
      using oc[of b] by (simp add: inv_wg_ahead_def)
  qed
qed

lemma inv_wg_wrapper_ends:
  assumes "inv_wg_ahead p c s" "g < length (pool s)"
  shows "inv_wg_ahead p c (wrapper_ends g oc (pc (pool s ! g)) s)"
proof (cases "pc (pool s ! g)")
  case PcTask
  with assms show ?thesis by (simp add: inv_wg_set_pc holds_child_def holds_parent_def)
next
  case (PcHandler q)
  have "inv_wg_ahead p c (crash r s)" for r
    using assms(1) by (simp add: inv_wg_ahead_def crash_def outstanding_parent_def
        outstanding_child_def)
  with PcHandler assms show ?thesis
    by (cases oc) (simp_all add: inv_wg_set_pc holds_child_def holds_parent_def)
qed (use assms(1) in simp_all)

lemma inv_wg_wrapper_step:
  assumes "inv_wg_ahead p c s" "inv_heap s" "g < length (pool s)" "0 \<le> p" "\<forall>a. 0 \<le> c a"
  shows "inv_wg_ahead p c (wrapper_step g (tw (pool s ! g)) (pc (pool s ! g)) s)"
proof (cases "pc (pool s ! g)")
  case (PcRecover oc)
  show ?thesis
  proof (cases oc)
    case Normal
    with PcRecover assms show ?thesis by (simp add: inv_wg_set_pc holds_child_def holds_parent_def)
  next
    case (Panic q)
    have "inv_wg_ahead p c (s\<lparr>handler_calls := handler_calls s @ [q]\<rparr>)"
      using assms(1) by (simp add: inv_wg_ahead_def outstanding_parent_def outstanding_child_def)
    then have "inv_wg_ahead p c
        (set_pc g (PcHandler q) (s\<lparr>handler_calls := handler_calls s @ [q]\<rparr>))"
      using assms(3) PcRecover by (intro inv_wg_set_pc) (simp_all add: holds_child_def holds_parent_def)
    with Panic PcRecover assms show ?thesis
      by (simp add: inv_wg_set_pc holds_child_def holds_parent_def split: option.splits)
  qed
next
  case PcChildDone
  let ?a = "tw (pool s ! g)"
  from assms PcChildDone have pos: "0 < childWG (heap s ! ?a)"
    by (intro child_outstanding_pos[of p c]) (simp_all add: holds_child_def)
  have "inv_wg_ahead p c
      (set_pc g PcParentDone (heap_upd ?a (\<lambda>t. t\<lparr>childWG := childWG t - 1\<rparr>) s))"
    using assms(1,3) PcChildDone by (intro inv_wg_child_done) simp_all
  with PcChildDone pos show ?thesis by (simp add: childWG_Done_def)
next
  case PcParentDone
  from assms PcParentDone have pos: "0 < parentWG s"
    by (intro parent_outstanding_pos[of p c s g]) (simp_all add: holds_parent_def)
  have "inv_wg_ahead p c (set_pc g PcExit (s\<lparr>parentWG := parentWG s - 1\<rparr>))"
    using assms(1,3) PcParentDone by (intro inv_wg_parent_done) simp_all
  with PcParentDone pos show ?thesis by (simp add: parentWG_Done_def)
qed (use assms(1) in simp_all)

lemma inv_ahead_gexec:
  assumes "gm_inv_ahead p c s" "0 \<le> p" "\<forall>a. 0 \<le> c a"
  shows "gm_inv_ahead p c (gexec a s)"
proof -
  have sr: "same_registry s (gexec a s)" by (rule same_registry_gexec)
  from assms(1) have i: "inv_heap s" "inv_wg_ahead p c s" "inv_ctx s"
    by (simp_all add: gm_inv_ahead_def)
  have "inv_wg_ahead p c (gexec a s)"
    using i(1,2) assms(2,3)
    by (cases a) (simp_all add: inv_wg_wrapper_ends inv_wg_wrapper_step not_le)
  with i(1,3) sr show ?thesis
    by (simp add: gm_inv_ahead_def inv_heap_same_registry[OF sr] inv_ctx_same_registry[OF sr])
qed

lemma inv_ahead_run:
  "gm_inv_ahead p c s \<Longrightarrow> 0 \<le> p \<Longrightarrow> \<forall>a. 0 \<le> c a \<Longrightarrow> gm_inv_ahead p c (run as s)"
  by (induction as arbitrary: s) (simp_all add: inv_ahead_gexec)

lemma inv_gexec: "gm_inv s \<Longrightarrow> gm_inv (gexec a s)"
  unfolding gm_inv_def by (rule inv_ahead_gexec) simp_all

lemma inv_run: "gm_inv s \<Longrightarrow> gm_inv (run as s)"
  unfolding gm_inv_def by (rule inv_ahead_run) simp_all

section \<open>The methods keep the invariants\<close>

lemmas inv_defs = gm_inv_def gm_inv_ahead_def inv_heap_def inv_wg_def inv_wg_ahead_def
  inv_ctx_def

lemma inv_new: "gm_inv NewGoroutineManager"
  by (simp add: inv_defs NewGoroutineManager_def outstanding_parent_def)

lemma inv_set_handler: "gm_inv s \<Longrightarrow> gm_inv (set_PanicHandler h s)"
  by (simp add: inv_defs set_PanicHandler_def outstanding_parent_def outstanding_child_def)

lemma inv_cancel: "gm_inv s \<Longrightarrow> c < next_cancel s \<Longrightarrow> gm_inv (call_cancel c s)"
  by (simp add: inv_defs call_cancel_def outstanding_parent_def outstanding_child_def)

lemma inv_AddTask: "gm_inv s \<Longrightarrow> gm_inv (AddTask name f s)"
  unfolding gm_inv_def gm_inv_ahead_def
proof (intro conjI)
  assume i: "inv_heap s \<and> inv_wg_ahead 0 (\<lambda>a. 0) s \<and> inv_ctx s"
  show "inv_heap (AddTask name f s)"
    using i by (auto simp: inv_heap_def AddTask_def context_WithCancel_def less_Suc_eq)
  show "inv_wg_ahead 0 (\<lambda>a. 0) (AddTask name f s)"
    using i by (auto simp: inv_wg_ahead_def inv_heap_def AddTask_def context_WithCancel_def
        less_Suc_eq nth_append outstanding_parent_def outstanding_child_def filter_empty_conv)
  show "inv_ctx (AddTask name f s)"
    using i by (auto simp: inv_ctx_def AddTask_def context_WithCancel_def less_Suc_eq nth_append)
qed

lemma inv_parentWG_Add:
  "gm_inv_ahead p c s \<Longrightarrow> gm_inv_ahead (p + 1) c (parentWG_Add s)"
  by (simp add: gm_inv_ahead_def inv_heap_def inv_wg_ahead_def inv_ctx_def parentWG_Add_def
      outstanding_parent_def outstanding_child_def)

lemma inv_childWG_Add:
  assumes "gm_inv_ahead p c s"
  shows "gm_inv_ahead p (c(t := c t + 1)) (childWG_Add t s)"
proof -
  have sr: "same_registry s (childWG_Add t s)"
    unfolding childWG_Add_def by (rule same_registry_heap_upd)
  from assms have i: "inv_heap s" "inv_wg_ahead p c s" "inv_ctx s"
    by (simp_all add: gm_inv_ahead_def)
  have f: "pool (childWG_Add t s) = pool s" "parentWG (childWG_Add t s) = parentWG s"
    "length (heap (childWG_Add t s)) = length (heap s)"
    by (simp_all add: childWG_Add_def heap_upd_def)
  have w: "childWG (heap (childWG_Add t s) ! b) =
           (if b = t then childWG (heap s ! b) + 1 else childWG (heap s ! b))"
    if "b < length (heap s)" for b
    using nth_update_childWG[OF that, of t "childWG (heap s ! t) + 1"]
    by (simp add: childWG_Add_def heap_upd_def)
  have "inv_wg_ahead p (c(t := c t + 1)) (childWG_Add t s)"
    using i(2) by (simp add: inv_wg_ahead_def f w outstanding_parent_def outstanding_child_def)
  with i(1,3) show ?thesis
    by (simp add: gm_inv_ahead_def inv_heap_same_registry[OF sr] inv_ctx_same_registry[OF sr])
qed

lemma inv_go:
  assumes "gm_inv_ahead 1 ((\<lambda>a. 0)(t := 1)) s" "t < length (heap s)"
  shows "gm_inv_ahead 0 (\<lambda>a. 0) (go t s)"
  using assms
  by (auto simp: gm_inv_ahead_def inv_heap_def inv_wg_ahead_def inv_ctx_def go_def
      outstanding_parent_def outstanding_child_def holds_parent_def holds_child_def)

lemma inv_launch:
  assumes "gm_inv s" "t < length (heap s)"
  shows "gm_inv (run i3 (go t (run i2 (childWG_Add t (run i1 (parentWG_Add s))))))"
proof -
  from assms(1) have "gm_inv_ahead 1 (\<lambda>a. 0) (parentWG_Add s)"
    using inv_parentWG_Add[of 0 "\<lambda>a. 0" s] by (simp add: gm_inv_def)
  then have 1: "gm_inv_ahead 1 (\<lambda>a. 0) (run i1 (parentWG_Add s))"
    by (rule inv_ahead_run) simp_all
  have "gm_inv_ahead 1 ((\<lambda>a. 0)(t := 1)) (childWG_Add t (run i1 (parentWG_Add s)))"
    using inv_childWG_Add[OF 1, of t] by simp
  then have 2: "gm_inv_ahead 1 ((\<lambda>a. 0)(t := 1)) (run i2 (childWG_Add t (run i1 (parentWG_Add s))))"
    by (rule inv_ahead_run) simp_all
  have "same_registry s (parentWG_Add s)" by (simp add: same_registry_def parentWG_Add_def)
  then have "same_registry s (run i1 (parentWG_Add s))"
    by (rule same_registry_trans) (rule same_registry_run)
  then have "same_registry s (childWG_Add t (run i1 (parentWG_Add s)))"
    unfolding childWG_Add_def by (rule same_registry_trans) (rule same_registry_heap_upd)
  then have "same_registry s (run i2 (childWG_Add t (run i1 (parentWG_Add s))))"
    by (rule same_registry_trans) (rule same_registry_run)
  with assms(2) have "t < length (heap (run i2 (childWG_Add t (run i1 (parentWG_Add s)))))"
    by (simp add: same_registry_def)
  with 2 have "gm_inv (go t (run i2 (childWG_Add t (run i1 (parentWG_Add s)))))"
    unfolding gm_inv_def by (rule inv_go)
  then show ?thesis by (rule inv_run)
qed

lemma launch_tasks:
  "tasks (run i3 (go t (run i2 (childWG_Add t (run i1 (parentWG_Add s)))))) = tasks s"
  "length (heap (run i3 (go t (run i2 (childWG_Add t (run i1 (parentWG_Add s))))))) =
     length (heap s)"
proof -
  have a: "same_registry s (parentWG_Add s)" by (simp add: same_registry_def parentWG_Add_def)
  have b: "same_registry x (childWG_Add t x)" for x
    unfolding childWG_Add_def by (rule same_registry_heap_upd)
  have c: "tasks (go t x) = tasks x" "length (heap (go t x)) = length (heap x)" for x
    by (simp_all add: go_def)
  have r: "tasks (run as x) = tasks x" "length (heap (run as x)) = length (heap x)" for as x
    using same_registry_run[of x as] by (simp_all add: same_registry_def)
  from a have a': "tasks (parentWG_Add s) = tasks s" "length (heap (parentWG_Add s)) = length (heap s)"
    by (simp_all add: same_registry_def)
  have b': "tasks (childWG_Add t x) = tasks x" "length (heap (childWG_Add t x)) = length (heap x)" for x
    using b[of x] by (simp_all add: same_registry_def)
  show "tasks (run i3 (go t (run i2 (childWG_Add t (run i1 (parentWG_Add s)))))) = tasks s"
    by (simp add: r c b' a')
  show "length (heap (run i3 (go t (run i2 (childWG_Add t (run i1 (parentWG_Add s))))))) =
     length (heap s)"
    by (simp add: r c b' a')
qed

lemma inv_StartAll: "gm_inv s \<Longrightarrow> gm_inv (StartAll ks s)"
proof (induction ks arbitrary: s)
  case Nil then show ?case by simp
next
  case (Cons kv ks)
  obtain k iv where kv: "kv = (k, iv)" by (cases kv)
  show ?case
  proof (cases "tasks s k")
    case None
    with Cons kv show ?thesis by simp
  next
    case (Some t)
    from Some Cons.prems have "t < length (heap s)" by (auto simp: inv_defs)
    with Cons.prems have "gm_inv (run (after_go iv) (go t (run (after_childAdd iv)
        (childWG_Add t (run (after_parentAdd iv) (parentWG_Add s))))))"
      by (rule inv_launch)
    then have "gm_inv (StartAll ks (run (after_go iv) (go t (run (after_childAdd iv)
        (childWG_Add t (run (after_parentAdd iv) (parentWG_Add s)))))))"
      by (rule Cons.IH)
    with Some kv show ?thesis by simp
  qed
qed

lemma inv_Start: "gm_inv s \<Longrightarrow> gm_inv (snd (Start name iv s))"
proof (cases "tasks s name")
  case None
  assume "gm_inv s" with None show ?thesis by (simp add: Start_def)
next
  case (Some t)
  assume i: "gm_inv s"
  with Some have "t < length (heap s)" by (auto simp: inv_defs)
  with i have "gm_inv (run (after_go iv) (go t (run (after_childAdd iv)
        (childWG_Add t (run (after_parentAdd iv) (parentWG_Add s))))))"
    by (rule inv_launch)
  with Some show ?thesis by (simp add: Start_def)
qed

section \<open>The bounded wait\<close>

lemma zero_after_le: "zero_after w as s = Some k \<Longrightarrow> k \<le> length as"
  by (induction as arbitrary: s k) (auto split: if_splits)

lemma zero_after_counter:
  "zero_after w as s = Some k \<Longrightarrow> counter (run (take k as) s) w = 0"
  by (induction as arbitrary: s k) (auto split: if_splits)

lemma wg_Wait_zero_after:
  "wg_Wait w as s =
     (case zero_after w as s of
        None \<Rightarrow> (NoReturn, run as s)
      | Some k \<Rightarrow> (Return (), run (take k as) s))"
  by (induction as arbitrary: s) (auto split: option.splits)

lemma select_never:
  "zero_after w as s = None \<Longrightarrow>
   select_done_timer w d pick as s = (WaitTimeout, run (take d as) s)"
proof (induction w d pick as s rule: select_done_timer.induct)
  case (1 w pick as s)
  then show ?case by (cases as) (auto split: if_splits)
next
  case (2 w d pick s)
  then show ?case by (auto split: if_splits)
next
  case (3 w d pick a as s)
  then show ?case by (auto split: if_splits)
qed

lemma select_zero_after:
  "zero_after w as s = Some k \<Longrightarrow>
   select_done_timer w d pick as s =
     (if k < d \<or> (k = d \<and> pick) then (WaitSuccess, run (take k as) s)
      else (WaitTimeout, run (take d as) s))"
proof (induction w d pick as s arbitrary: k rule: select_done_timer.induct)
  case (1 w pick as s)
  then show ?case by (cases as) (auto split: if_splits)
next
  case (2 w d pick s)
  then show ?case by (auto split: if_splits)
next
  case (3 w d pick a as s)
  then show ?case by (auto split: if_splits)
qed

lemma take_min_length: "take (min d (length as)) as = take d as"
  by (simp add: min_def)

lemma wg_Wait_run: "\<exists>k\<le>length as. snd (wg_Wait w as s) = run (take k as) s"
proof (cases "zero_after w as s")
  case None
  then have "snd (wg_Wait w as s) = run (take (length as) as) s"
    by (simp add: wg_Wait_zero_after)
  then show ?thesis by blast
next
  case (Some k)
  then have "snd (wg_Wait w as s) = run (take k as) s" "k \<le> length as"
    by (simp_all add: wg_Wait_zero_after zero_after_le)
  then show ?thesis by blast
qed

lemma select_run: "\<exists>k\<le>length as. snd (select_done_timer w d pick as s) = run (take k as) s"
proof (cases "zero_after w as s")
  case None
  then have "snd (select_done_timer w d pick as s) = run (take (min d (length as)) as) s"
    by (simp add: select_never take_min_length)
  then show ?thesis by (intro exI[of _ "min d (length as)"]) simp
next
  case (Some k)
  then have k: "k \<le> length as" by (rule zero_after_le)
  show ?thesis
  proof (cases "k < d \<or> (k = d \<and> pick)")
    case True
    with Some k show ?thesis by (intro exI[of _ k]) (simp add: select_zero_after)
  next
    case False
    with Some have "snd (select_done_timer w d pick as s) = run (take (min d (length as)) as) s"
      by (simp add: select_zero_after take_min_length)
    then show ?thesis by (intro exI[of _ "min d (length as)"]) simp
  qed
qed

lemma WaitGroupWithTimeout_run:
  "\<exists>k\<le>length (sched e). snd (WaitGroupWithTimeout e wg timeout s) = run (take k (sched e)) s"
proof (cases wg)
  case None
  then show ?thesis by (intro exI[of _ 0]) (simp add: WaitGroupWithTimeout_def)
next
  case (Some w)
  show ?thesis
  proof (cases "timeout < 0")
    case True
    have "snd (WaitGroupWithTimeout e wg timeout s) = snd (wg_Wait w (sched e) s)"
      using Some True by (simp add: WaitGroupWithTimeout_def split: prod.splits call.splits)
    then show ?thesis using wg_Wait_run[of "sched e" w s] by simp
  next
    case False
    have "snd (WaitGroupWithTimeout e wg timeout s) =
          snd (select_done_timer w (deadline e) (pick_done e) (sched e) s)"
      using Some False by (simp add: WaitGroupWithTimeout_def split: prod.splits)
    then show ?thesis using select_run[of "sched e" w "deadline e" "pick_done e" s] by simp
  qed
qed

lemma inv_WaitGroupWithTimeout: "gm_inv s \<Longrightarrow> gm_inv (snd (WaitGroupWithTimeout e wg timeout s))"
  using WaitGroupWithTimeout_run[of e wg timeout s] by (auto simp: inv_run)

lemma same_registry_WaitGroupWithTimeout:
  "same_registry s (snd (WaitGroupWithTimeout e wg timeout s))"
  using WaitGroupWithTimeout_run[of e wg timeout s] by (auto simp: same_registry_run)

section \<open>Reachable states satisfy the invariants\<close>

lemma registered_cancel_bound:
  assumes "tasks s name = Some t" "gm_inv s"
  shows "childCancel (heap s ! t) < next_cancel s"
proof -
  from assms have "t < length (heap s)" by (auto simp: inv_defs)
  with assms(2) show ?thesis by (simp add: inv_defs)
qed

lemma inv_StopAll: "gm_inv s \<Longrightarrow> gm_inv (snd (StopAll timeout e s))"
proof -
  assume i: "gm_inv s"
  then have "parentCancel s < next_cancel s" by (simp add: inv_defs)
  with i have "gm_inv (snd (WaitGroupWithTimeout e (Some ParentWG) timeout (call_cancel (parentCancel s) s)))"
    by (intro inv_WaitGroupWithTimeout inv_cancel)
  then show ?thesis
    by (auto simp: StopAll_def split: prod.splits call.splits)
qed

lemma inv_Stop: "gm_inv s \<Longrightarrow> gm_inv (snd (Stop name timeout e s))"
proof (cases "tasks s name")
  case None
  assume "gm_inv s" with None show ?thesis by (simp add: Stop_def)
next
  case (Some t)
  assume i: "gm_inv s"
  with Some have "childCancel (heap s ! t) < next_cancel s" by (rule registered_cancel_bound)
  with i have "gm_inv (snd (WaitGroupWithTimeout e (Some (ChildWG t)) timeout
                    (call_cancel (childCancel (heap s ! t)) s)))"
    by (intro inv_WaitGroupWithTimeout inv_cancel)
  with Some show ?thesis
    by (auto simp: Stop_def split: prod.splits call.splits)
qed

lemma inv_delete: "gm_inv s \<Longrightarrow> gm_inv (s\<lparr>tasks := (tasks s)(name := None)\<rparr>)"
  by (auto simp: inv_defs outstanding_parent_def outstanding_child_def split: if_splits)

lemma inv_RemoveTask: "gm_inv s \<Longrightarrow> gm_inv (snd (RemoveTask name timeout e s))"
proof (cases "tasks s name")
  case None
  assume "gm_inv s" with None show ?thesis by (simp add: RemoveTask_def)
next
  case (Some t)
  assume i: "gm_inv s"
  with Some have "childCancel (heap s ! t) < next_cancel s" by (rule registered_cancel_bound)
  with i have "gm_inv (snd (WaitGroupWithTimeout e (Some (ChildWG t)) timeout
                    (call_cancel (childCancel (heap s ! t)) s)))"
    by (intro inv_WaitGroupWithTimeout inv_cancel)
  with Some show ?thesis
    by (auto simp: RemoveTask_def inv_delete split: prod.splits call.splits)
qed

lemma reachable_inv: "reachable s \<Longrightarrow> gm_inv s"
proof (induction rule: reachable.induct)
  case r_new
  show ?case by (rule inv_new)
qed (simp_all add: inv_set_handler inv_AddTask inv_RemoveTask inv_StartAll inv_StopAll
      inv_Start inv_Stop inv_gexec)

lemma registered_ctx:
  assumes "gm_inv s" "tasks s name = Some t"
  shows "t < length (heap s)"
    "childCtx (heap s ! t) = WithCancel (childCancel (heap s ! t)) (WithCancel (parentCancel s) Background)"
    "childCancel (heap s ! t) \<noteq> parentCancel s"
proof -
  from assms show l: "t < length (heap s)" by (auto simp: inv_defs)
  with assms(1) show "childCtx (heap s ! t) =
      WithCancel (childCancel (heap s ! t)) (WithCancel (parentCancel s) Background)"
    by (simp add: inv_defs)
  from l assms(1) have "parentCancel s < childCancel (heap s ! t)"
    by (simp add: inv_defs)
  then show "childCancel (heap s ! t) \<noteq> parentCancel s" by simp
qed

lemma siblings_differ:
  assumes "gm_inv s" "tasks s name = Some t" "tasks s name' = Some t'" "name' \<noteq> name"
  shows "t' \<noteq> t" "childCancel (heap s ! t') \<noteq> childCancel (heap s ! t)"
proof -
  from assms show d: "t' \<noteq> t" by (auto simp: inv_defs)
  from assms have "t < length (heap s)" "t' < length (heap s)" by (auto simp: inv_defs)
  with d assms(1) show "childCancel (heap s ! t') \<noteq> childCancel (heap s ! t)"
    by (auto simp: inv_defs)
qed

section \<open>Concrete states\<close>

lemmas model_defs = NewGoroutineManager_def set_PanicHandler_def AddTask_def
  context_WithCancel_def call_cancel_def heap_upd_def parentWG_Add_def childWG_Add_def
  go_def childWG_Done_def parentWG_Done_def set_pc_def crash_def Start_def
  range_order_def quiet_def

lemma weblin_registered_eq:
  "weblin_registered =
     \<lparr>PanicHandler = Some ''panicHandler'', parentWG = 0,
      parentCtx = WithCancel 0 Background, parentCancel = 0,
      tasks = [''server'' \<mapsto> 0],
      heap = [\<lparr>childWG = 0, childCtx = WithCancel 1 (WithCancel 0 Background),
               childCancel = 1, task = ''server.Run''\<rparr>],
      pool = [], canceled = {}, next_cancel = 2, handler_calls = [], crashed = None\<rparr>"
  by (simp add: weblin_registered_def model_defs)

lemma weblin_started_eq:
  "weblin_started =
     \<lparr>PanicHandler = Some ''panicHandler'', parentWG = 1,
      parentCtx = WithCancel 0 Background, parentCancel = 0,
      tasks = [''server'' \<mapsto> 0],
      heap = [\<lparr>childWG = 1, childCtx = WithCancel 1 (WithCancel 0 Background),
               childCancel = 1, task = ''server.Run''\<rparr>],
      pool = [\<lparr>tw = 0, pc = PcTask\<rparr>], canceled = {}, next_cancel = 2,
      handler_calls = [], crashed = None\<rparr>"
  by (simp add: weblin_started_def weblin_registered_eq model_defs)

lemma reachable_weblin_registered: "reachable weblin_registered"
  unfolding weblin_registered_def
  by (intro r_add r_handler r_new) (simp_all add: model_defs)

lemma reachable_weblin_started: "reachable weblin_started"
  unfolding weblin_started_def
  by (intro r_start_all reachable_weblin_registered) (simp_all add: weblin_registered_eq model_defs)

lemma weblin_started_cancel_wait:
  "childCancel (heap weblin_started ! 0) = 1"
  "fst (WaitGroupWithTimeout \<lparr>sched = server_returns, deadline = 5, pick_done = False\<rparr>
          (Some (ChildWG 0)) 50 (call_cancel 1 weblin_started)) = Return WaitSuccess"
  "fst (WaitGroupWithTimeout \<lparr>sched = [], deadline = 5, pick_done = False\<rparr>
          (Some (ChildWG 0)) 50 (call_cancel 1 weblin_started)) = Return WaitTimeout"
  by (simp_all add: WaitGroupWithTimeout_def server_returns_def weblin_started_eq model_defs
      eval_nat_numeral)

lemma two_registered_eq:
  "two_registered =
     \<lparr>PanicHandler = None, parentWG = 0,
      parentCtx = WithCancel 0 Background, parentCancel = 0,
      tasks = [''a'' \<mapsto> 0, ''b'' \<mapsto> 1],
      heap = [\<lparr>childWG = 0, childCtx = WithCancel 1 (WithCancel 0 Background),
               childCancel = 1, task = ''a.Run''\<rparr>,
              \<lparr>childWG = 0, childCtx = WithCancel 2 (WithCancel 0 Background),
               childCancel = 2, task = ''b.Run''\<rparr>],
      pool = [], canceled = {}, next_cancel = 3, handler_calls = [], crashed = None\<rparr>"
  by (simp add: two_registered_def model_defs)

lemma two_started_eq:
  "two_started =
     \<lparr>PanicHandler = None, parentWG = 2,
      parentCtx = WithCancel 0 Background, parentCancel = 0,
      tasks = [''a'' \<mapsto> 0, ''b'' \<mapsto> 1],
      heap = [\<lparr>childWG = 1, childCtx = WithCancel 1 (WithCancel 0 Background),
               childCancel = 1, task = ''a.Run''\<rparr>,
              \<lparr>childWG = 1, childCtx = WithCancel 2 (WithCancel 0 Background),
               childCancel = 2, task = ''b.Run''\<rparr>],
      pool = [\<lparr>tw = 0, pc = PcTask\<rparr>, \<lparr>tw = 1, pc = PcTask\<rparr>],
      canceled = {}, next_cancel = 3, handler_calls = [], crashed = None\<rparr>"
  by (simp add: two_started_def two_registered_eq model_defs)

lemma reachable_two_registered: "reachable two_registered"
  unfolding two_registered_def
  by (intro r_add r_new) (simp_all add: model_defs)

lemma reachable_two_started: "reachable two_started"
  unfolding two_started_def
  by (intro r_start_all reachable_two_registered) (auto simp: two_registered_eq model_defs)

lemma two_started_stop_b:
  "childCancel (heap two_started ! 1) = 2"
  "fst (WaitGroupWithTimeout \<lparr>sched = b_returns, deadline = 5, pick_done = False\<rparr>
          (Some (ChildWG 1)) 50 (call_cancel 2 two_started)) = Return WaitSuccess"
  "ctx_done (canceled two_started) (childCtx (heap two_started ! 0)) = False"
  by (simp_all add: WaitGroupWithTimeout_def b_returns_def two_started_eq model_defs
      eval_nat_numeral)

lemma quiet_launch_effect:
  assumes "t < length (heap s)"
  shows "parentWG (go t (childWG_Add t (parentWG_Add s))) = parentWG s + 1"
    "childWG (heap (go t (childWG_Add t (parentWG_Add s))) ! t) = childWG (heap s ! t) + 1"
    "pool (go t (childWG_Add t (parentWG_Add s))) = pool s @ [\<lparr>tw = t, pc = PcTask\<rparr>]"
  using assms by (simp_all add: go_def childWG_Add_def parentWG_Add_def heap_upd_def)

lemma quiet_launch_other:
  "b \<noteq> t \<Longrightarrow> childWG (heap (go t (childWG_Add t (parentWG_Add s))) ! b) = childWG (heap s ! b)"
  by (simp add: go_def childWG_Add_def parentWG_Add_def heap_upd_def)

lemma launch_tw:
  "map tw (pool (run i3 (go t (run i2 (childWG_Add t (run i1 (parentWG_Add s))))))) =
     map tw (pool s) @ [t]"
proof -
  have r: "map tw (pool (run as x)) = map tw (pool x)" for as x
    using same_registry_run[of x as] by (simp add: same_registry_def)
  have c: "map tw (pool (childWG_Add t x)) = map tw (pool x)" for x
    by (simp add: childWG_Add_def heap_upd_def)
  show ?thesis by (simp add: r c) (simp add: go_def r c parentWG_Add_def)
qed

lemma inv_before_go:
  assumes "gm_inv s"
  shows "gm_inv_ahead 1 ((\<lambda>a. 0)(t := 1)) (run i2 (childWG_Add t (run i1 (parentWG_Add s))))"
proof -
  from assms have "gm_inv_ahead 1 (\<lambda>a. 0) (parentWG_Add s)"
    using inv_parentWG_Add[of 0 "\<lambda>a. 0" s] by (simp add: gm_inv_def)
  then have 1: "gm_inv_ahead 1 (\<lambda>a. 0) (run i1 (parentWG_Add s))"
    by (rule inv_ahead_run) simp_all
  have "gm_inv_ahead 1 ((\<lambda>a. 0)(t := 1)) (childWG_Add t (run i1 (parentWG_Add s)))"
    using inv_childWG_Add[OF 1, of t] by simp
  then show ?thesis by (rule inv_ahead_run) simp_all
qed

lemma before_go_heap:
  "length (heap (run i2 (childWG_Add t (run i1 (parentWG_Add s))))) = length (heap s)"
proof -
  have r: "length (heap (run as x)) = length (heap x)" for as x
    using same_registry_run[of x as] by (simp add: same_registry_def)
  show ?thesis by (simp add: r childWG_Add_def heap_upd_def parentWG_Add_def)
qed

lemma before_go_counted:
  assumes "gm_inv s" "t < length (heap s)"
  shows "0 < parentWG (run i2 (childWG_Add t (run i1 (parentWG_Add s))))"
    "0 < childWG (heap (run i2 (childWG_Add t (run i1 (parentWG_Add s)))) ! t)"
proof -
  let ?b = "run i2 (childWG_Add t (run i1 (parentWG_Add s)))"
  from assms(1) have "inv_wg_ahead 1 ((\<lambda>a. 0)(t := 1)) ?b"
    using inv_before_go[of s t i2 i1] by (simp add: gm_inv_ahead_def)
  then have p: "parentWG ?b = int (outstanding_parent ?b) + 1"
    and c: "\<forall>a < length (heap ?b). childWG (heap ?b ! a) =
            int (outstanding_child a ?b) + ((\<lambda>a. 0)(t := 1)) a"
    by (simp_all add: inv_wg_ahead_def)
  from p show "0 < parentWG ?b" by simp
  from assms(2) have "t < length (heap ?b)" by (simp add: before_go_heap)
  with c have "childWG (heap ?b ! t) = int (outstanding_child t ?b) + 1" by simp
  then show "0 < childWG (heap ?b ! t)" by simp
qed

lemma StartAll_append: "StartAll (xs @ ys) s = StartAll ys (StartAll xs s)"
  by (induction xs arbitrary: s) (auto split: option.splits)

lemma StartAll_tasks:
  "tasks (StartAll ks s) = tasks s \<and> length (heap (StartAll ks s)) = length (heap s)"
  by (induction ks arbitrary: s) (auto simp: launch_tasks split: option.splits)

lemma StartAll_tw:
  "map tw (pool (StartAll ks s)) = map tw (pool s) @ List.map_filter (tasks s) (map fst ks)"
proof (induction ks arbitrary: s)
  case Nil
  show ?case by (simp add: List.map_filter_simps)
next
  case (Cons kv ks)
  obtain k iv where kv: "kv = (k, iv)" by (cases kv)
  show ?case
  proof (cases "tasks s k")
    case None
    with Cons kv show ?thesis by (simp add: List.map_filter_simps)
  next
    case (Some t)
    let ?l = "run (after_go iv) (go t (run (after_childAdd iv)
        (childWG_Add t (run (after_parentAdd iv) (parentWG_Add s)))))"
    have "map tw (pool (StartAll ks ?l)) =
          map tw (pool ?l) @ List.map_filter (tasks s) (map fst ks)"
      using Cons[of ?l] by (simp add: launch_tasks)
    with Some kv show ?thesis by (simp add: List.map_filter_simps launch_tw)
  qed
qed

lemma map_filter_all:
  "set ks \<subseteq> dom m \<Longrightarrow> length (List.map_filter m ks) = length ks"
  by (induction ks) (auto simp: List.map_filter_simps)

lemma quiet_StartAll_pool:
  "pool (StartAll (map (\<lambda>k. (k, quiet)) ks) s) =
     pool s @ map (\<lambda>t. \<lparr>tw = t, pc = PcTask\<rparr>) (List.map_filter (tasks s) ks)"
proof (induction ks arbitrary: s)
  case Nil
  show ?case by (simp add: List.map_filter_simps)
next
  case (Cons k ks)
  show ?case
  proof (cases "tasks s k")
    case None
    with Cons show ?thesis by (simp add: List.map_filter_simps)
  next
    case (Some t)
    let ?l = "go t (childWG_Add t (parentWG_Add s))"
    have tl: "tasks ?l = tasks s" using launch_tasks(1)[of "[]" t "[]" "[]" s] by simp
    have "pool (StartAll (map (\<lambda>k. (k, quiet)) ks) ?l) =
          pool ?l @ map (\<lambda>t. \<lparr>tw = t, pc = PcTask\<rparr>) (List.map_filter (tasks s) ks)"
      using Cons[of ?l] by (simp add: tl)
    with Some show ?thesis
      by (simp add: List.map_filter_simps quiet_def go_def childWG_Add_def parentWG_Add_def
          heap_upd_def)
  qed
qed

lemma quiet_StartAll_parentWG:
  "parentWG (StartAll (map (\<lambda>k. (k, quiet)) ks) s) =
     parentWG s + int (length (List.map_filter (tasks s) ks))"
proof (induction ks arbitrary: s)
  case Nil
  show ?case by (simp add: List.map_filter_simps)
next
  case (Cons k ks)
  show ?case
  proof (cases "tasks s k")
    case None
    with Cons show ?thesis by (simp add: List.map_filter_simps)
  next
    case (Some t)
    let ?l = "go t (childWG_Add t (parentWG_Add s))"
    have tl: "tasks ?l = tasks s" using launch_tasks(1)[of "[]" t "[]" "[]" s] by simp
    have "parentWG (StartAll (map (\<lambda>k. (k, quiet)) ks) ?l) =
          parentWG ?l + int (length (List.map_filter (tasks s) ks))"
      using Cons[of ?l] by (simp add: tl)
    with Some show ?thesis
      by (simp add: List.map_filter_simps quiet_def go_def childWG_Add_def parentWG_Add_def
          heap_upd_def)
  qed
qed

lemma quiet_StartAll_childWG:
  assumes "\<forall>n m a. tasks s n = Some a \<and> tasks s m = Some a \<longrightarrow> n = m"
    "\<forall>n a. tasks s n = Some a \<longrightarrow> a < length (heap s)"
    "distinct ks" "b < length (heap s)"
  shows "childWG (heap (StartAll (map (\<lambda>k. (k, quiet)) ks) s) ! b) =
         childWG (heap s ! b) + (if \<exists>k \<in> set ks. tasks s k = Some b then 1 else 0)"
  using assms
proof (induction ks arbitrary: s)
  case Nil
  show ?case by simp
next
  case (Cons k ks)
  show ?case
  proof (cases "tasks s k")
    case None
    with Cons.IH[of s] Cons.prems show ?thesis by simp
  next
    case (Some t)
    let ?s = "go t (childWG_Add t (parentWG_Add s))"
    have tl: "tasks ?s = tasks s" "length (heap ?s) = length (heap s)"
      using launch_tasks[of "[]" t "[]" "[]" s] by simp_all
    from Some Cons.prems(2) have t: "t < length (heap s)" by blast
    have ih: "childWG (heap (StartAll (map (\<lambda>k. (k, quiet)) ks) ?s) ! b) =
          childWG (heap ?s ! b) + (if \<exists>k \<in> set ks. tasks s k = Some b then 1 else 0)"
      using Cons.IH[of ?s] Cons.prems by (simp add: tl)
    have st: "StartAll (map (\<lambda>k. (k, quiet)) (k # ks)) s =
              StartAll (map (\<lambda>k. (k, quiet)) ks) ?s"
      using Some by (simp add: quiet_def)
    show ?thesis
    proof (cases "b = t")
      case True
      have "\<not> (\<exists>k' \<in> set ks. tasks s k' = Some b)"
      proof
        assume "\<exists>k' \<in> set ks. tasks s k' = Some b"
        then obtain k' where k': "k' \<in> set ks" "tasks s k' = Some b" by blast
        with Some True Cons.prems(1) have "k' = k" by blast
        with k'(1) Cons.prems(3) show False by simp
      qed
      with ih True Some t show ?thesis unfolding st by (simp add: quiet_launch_effect)
    next
      case False
      with ih Some show ?thesis unfolding st by (auto simp: quiet_launch_other)
    qed
  qed
qed


lemma all_quiet: "\<forall>kv \<in> set kes. snd kv = quiet \<Longrightarrow> kes = map (\<lambda>k. (k, quiet)) (map fst kes)"
  by (induction kes) (auto simp: prod_eq_iff)

lemma a_ends_during_b_eq:
  "StartAll a_ends_during_b two_registered =
     \<lparr>PanicHandler = None, parentWG = 1,
      parentCtx = WithCancel 0 Background, parentCancel = 0,
      tasks = [''a'' \<mapsto> 0, ''b'' \<mapsto> 1],
      heap = [\<lparr>childWG = 0, childCtx = WithCancel 1 (WithCancel 0 Background),
               childCancel = 1, task = ''a.Run''\<rparr>,
              \<lparr>childWG = 1, childCtx = WithCancel 2 (WithCancel 0 Background),
               childCancel = 2, task = ''b.Run''\<rparr>],
      pool = [\<lparr>tw = 0, pc = PcExit\<rparr>, \<lparr>tw = 1, pc = PcTask\<rparr>],
      canceled = {}, next_cancel = 3, handler_calls = [], crashed = None\<rparr>"
  by (simp add: a_ends_during_b_def two_registered_eq model_defs)

lemma task_panic_handled:
  assumes "crashed s = None" "g < length (pool s)" "pc (pool s ! g) = PcTask"
    "PanicHandler s = Some h"
  shows "run [Ends g (Panic p), Step g] s =
         s\<lparr>pool := (pool s)[g := (pool s ! g)\<lparr>pc := PcHandler p\<rparr>],
           handler_calls := handler_calls s @ [p]\<rparr>"
  using assms by (simp add: set_pc_def)

lemma task_panic_handled_done:
  assumes "crashed s = None" "g < length (pool s)" "pc (pool s ! g) = PcTask"
    "PanicHandler s = Some h" "tw (pool s ! g) = a"
    "0 < childWG (heap s ! a)" "0 < parentWG s"
  shows "run [Ends g (Panic p), Step g, Ends g Normal, Step g] s =
         s\<lparr>pool := (pool s)[g := (pool s ! g)\<lparr>pc := PcParentDone\<rparr>],
           handler_calls := handler_calls s @ [p],
           heap := (heap s)[a := (heap s ! a)\<lparr>childWG := childWG (heap s ! a) - 1\<rparr>]\<rparr>"
    "run [Ends g (Panic p), Step g, Ends g Normal, Step g, Step g] s =
         s\<lparr>pool := (pool s)[g := (pool s ! g)\<lparr>pc := PcExit\<rparr>],
           handler_calls := handler_calls s @ [p],
           heap := (heap s)[a := (heap s ! a)\<lparr>childWG := childWG (heap s ! a) - 1\<rparr>],
           parentWG := parentWG s - 1\<rparr>"
  using assms by (simp_all add: set_pc_def childWG_Done_def parentWG_Done_def heap_upd_def)

lemma task_panic_unhandled:
  assumes "crashed s = None" "g < length (pool s)" "pc (pool s ! g) = PcTask"
    "PanicHandler s = None" "tw (pool s ! g) = a"
    "0 < childWG (heap s ! a)" "0 < parentWG s"
  shows "run [Ends g (Panic p), Step g] s =
         s\<lparr>pool := (pool s)[g := (pool s ! g)\<lparr>pc := PcChildDone\<rparr>]\<rparr>"
    "run [Ends g (Panic p), Step g, Step g] s =
         s\<lparr>pool := (pool s)[g := (pool s ! g)\<lparr>pc := PcParentDone\<rparr>],
           heap := (heap s)[a := (heap s ! a)\<lparr>childWG := childWG (heap s ! a) - 1\<rparr>]\<rparr>"
    "run [Ends g (Panic p), Step g, Step g, Step g] s =
         s\<lparr>pool := (pool s)[g := (pool s ! g)\<lparr>pc := PcExit\<rparr>],
           heap := (heap s)[a := (heap s ! a)\<lparr>childWG := childWG (heap s ! a) - 1\<rparr>],
           parentWG := parentWG s - 1\<rparr>"
  using assms by (simp_all add: set_pc_def childWG_Done_def parentWG_Done_def heap_upd_def)

lemma exited_is_final:
  "g < length (pool s) \<Longrightarrow> pc (pool s ! g) = PcExit \<Longrightarrow>
   gexec (Step g) s = s \<and> gexec (Ends g oc) s = s"
  by simp


lemma launched_counted:
  assumes "reachable s" "g < length (pool s)" "holds_child (pc (pool s ! g))"
  shows "0 < childWG (heap s ! tw (pool s ! g))" "0 < parentWG s"
proof -
  from assms(1) have "gm_inv s" by (rule reachable_inv)
  then have j: "inv_wg_ahead 0 (\<lambda>a. 0) s" "inv_heap s"
    by (simp_all add: gm_inv_def gm_inv_ahead_def)
  from j assms(2,3) show "0 < childWG (heap s ! tw (pool s ! g))"
    by (intro child_outstanding_pos[of 0 "\<lambda>a. 0"]) simp_all
  from assms(3) have "holds_parent (pc (pool s ! g))"
    by (simp add: holds_child_def holds_parent_def)
  with j(1) assms(2) show "0 < parentWG s"
    by (intro parent_outstanding_pos[of 0 "\<lambda>a. 0" _ g]) simp_all
qed

section \<open>The claims\<close>

text \<open>
  C8. \<open>AddTask(name, f)\<close> allocates a new task wrapper holding \<open>f\<close>, a wait group
  at zero and a context that is a child of the manager's context with a cancellation signal
  of its own, and stores it in the registry under \<open>name\<close>. It launches no goroutine and
  touches neither the manager's wait group nor any cancellation. In a reachable state the
  wrapper and its signal are fresh: no registry entry or goroutine points to the new
  address, and the signal is neither fired nor owned by another context. A name that is
  already registered is not rejected: the entry is overwritten with the new wrapper, and
  the old wrapper stays as it was.
\<close>

theorem AddTask_spec:
  assumes "reachable s"
  shows
    "heap (AddTask name f s) =
       heap s @ [\<lparr>childWG = 0, childCtx = WithCancel (next_cancel s) (parentCtx s),
                  childCancel = next_cancel s, task = f\<rparr>] \<and>
     tasks (AddTask name f s) = (tasks s)(name \<mapsto> length (heap s)) \<and>
     pool (AddTask name f s) = pool s \<and>
     parentWG (AddTask name f s) = parentWG s \<and>
     canceled (AddTask name f s) = canceled s \<and>
     (\<forall>n. tasks s n \<noteq> Some (length (heap s))) \<and>
     (\<forall>g \<in> set (pool s). tw g \<noteq> length (heap s)) \<and>
     next_cancel s \<notin> canceled s \<and>
     next_cancel s \<noteq> parentCancel s \<and>
     (\<forall>a < length (heap s). childCancel (heap s ! a) \<noteq> next_cancel s) \<and>
     (\<forall>old. tasks s name = Some old \<longrightarrow>
        tasks (AddTask name f s) name \<noteq> Some old \<and>
        heap (AddTask name f s) ! old = heap s ! old)"
proof -
  from assms have i: "gm_inv s" by (rule reachable_inv)
  have h: "heap (AddTask name f s) =
       heap s @ [\<lparr>childWG = 0, childCtx = WithCancel (next_cancel s) (parentCtx s),
                  childCancel = next_cancel s, task = f\<rparr>]"
    and t: "tasks (AddTask name f s) = (tasks s)(name \<mapsto> length (heap s))"
    and o: "pool (AddTask name f s) = pool s" "parentWG (AddTask name f s) = parentWG s"
      "canceled (AddTask name f s) = canceled s"
    by (simp_all add: AddTask_def context_WithCancel_def)
  have f1: "\<forall>n. tasks s n \<noteq> Some (length (heap s))"
    using i by (auto simp: inv_defs)
  have f2: "\<forall>g \<in> set (pool s). tw g \<noteq> length (heap s)"
    using i by (auto simp: inv_defs)
  have f3: "next_cancel s \<notin> canceled s" "next_cancel s \<noteq> parentCancel s"
    "\<forall>a < length (heap s). childCancel (heap s ! a) \<noteq> next_cancel s"
    using i by (auto simp: inv_defs)
  have f4: "\<forall>old. tasks s name = Some old \<longrightarrow>
        tasks (AddTask name f s) name \<noteq> Some old \<and>
        heap (AddTask name f s) ! old = heap s ! old"
  proof (intro allI impI)
    fix old assume "tasks s name = Some old"
    with i have "old < length (heap s)" by (auto simp: inv_defs)
    then show "tasks (AddTask name f s) name \<noteq> Some old \<and>
        heap (AddTask name f s) ! old = heap s ! old"
      by (simp add: h t nth_append)
  qed
  show ?thesis using h t o f1 f2 f3 f4 by simp
qed

theorem AddTask_spec_witness:
  "reachable weblin_registered \<and>
   tasks weblin_registered ''server'' = Some 0 \<and>
   tasks (AddTask ''server'' ''other.Run'' weblin_registered) ''server'' = Some 1 \<and>
   heap (AddTask ''server'' ''other.Run'' weblin_registered) =
     heap weblin_registered @
       [\<lparr>childWG = 0, childCtx = WithCancel 2 (WithCancel 0 Background),
         childCancel = 2, task = ''other.Run''\<rparr>] \<and>
   pool (AddTask ''server'' ''other.Run'' weblin_registered) = []"
proof -
  have v: "tasks weblin_registered ''server'' = Some 0" "length (heap weblin_registered) = 1"
    "next_cancel weblin_registered = 2" "parentCtx weblin_registered = WithCancel 0 Background"
    "pool weblin_registered = []"
    by (simp_all add: weblin_registered_eq)
  show ?thesis
    using AddTask_spec[OF reachable_weblin_registered, of "''server''" "''other.Run''"]
      reachable_weblin_registered
    by (simp add: v)
qed

text \<open>
  C10. \<open>Stop(name, timeout)\<close> on an unregistered name returns \<open>nil\<close> and leaves the
  whole state unchanged: nothing is canceled, nothing is waited for, and no "task does not
  exist" error is reported.
\<close>

theorem Stop_unregistered:
  "tasks s name = None \<Longrightarrow> Stop name timeout e s = (Return None, s)"
  by (simp add: Stop_def)

theorem Stop_unregistered_witness:
  "tasks (AddTask ''server'' ''server.Run'' NewGoroutineManager) ''metrics'' = None \<and>
   Stop ''metrics'' 50 \<lparr>sched = [], deadline = 0, pick_done = False\<rparr>
     (AddTask ''server'' ''server.Run'' NewGoroutineManager)
   = (Return None, AddTask ''server'' ''server.Run'' NewGoroutineManager)"
proof -
  have h: "tasks (AddTask ''server'' ''server.Run'' NewGoroutineManager) ''metrics'' = None"
    by (simp add: AddTask_def context_WithCancel_def NewGoroutineManager_def)
  show ?thesis using h Stop_unregistered[OF h] by simp
qed

text \<open>
  C6. \<open>WaitGroupWithTimeout(wg, timeout)\<close> returns \<open>WaitInvalidParam\<close> exactly when
  \<open>wg\<close> is \<open>nil\<close>. For a wait group that is not \<open>nil\<close>: with a negative timeout it
  blocks until the counter is zero and then returns \<open>WaitSuccess\<close> (and never returns
  when the counter never becomes zero); otherwise it returns \<open>WaitSuccess\<close> or
  \<open>WaitTimeout\<close>, \<open>WaitSuccess\<close> when the counter is zero before the timer fires and
  \<open>WaitTimeout\<close> when the timer fires first or the counter never becomes zero.
\<close>

theorem WaitGroupWithTimeout_spec:
  "(fst (WaitGroupWithTimeout e wg timeout s) = Return WaitInvalidParam \<longleftrightarrow> wg = None) \<and>
   (\<forall>w. wg = Some w \<longrightarrow>
      (timeout < 0 \<longrightarrow>
         (zero_after w (sched e) s = None \<longrightarrow>
            fst (WaitGroupWithTimeout e wg timeout s) = NoReturn) \<and>
         (\<forall>k. zero_after w (sched e) s = Some k \<longrightarrow>
            WaitGroupWithTimeout e wg timeout s = (Return WaitSuccess, run (take k (sched e)) s) \<and>
            counter (run (take k (sched e)) s) w = 0)) \<and>
      (0 \<le> timeout \<longrightarrow>
         (fst (WaitGroupWithTimeout e wg timeout s) = Return WaitSuccess \<or>
          fst (WaitGroupWithTimeout e wg timeout s) = Return WaitTimeout) \<and>
         (\<forall>k. zero_after w (sched e) s = Some k \<and> k < deadline e \<longrightarrow>
            WaitGroupWithTimeout e wg timeout s = (Return WaitSuccess, run (take k (sched e)) s) \<and>
            counter (run (take k (sched e)) s) w = 0) \<and>
         (zero_after w (sched e) s = None \<or>
          (\<exists>k. zero_after w (sched e) s = Some k \<and> deadline e < k) \<longrightarrow>
            WaitGroupWithTimeout e wg timeout s =
              (Return WaitTimeout, run (take (deadline e) (sched e)) s))))"
proof (intro conjI allI impI)
  show "fst (WaitGroupWithTimeout e wg timeout s) = Return WaitInvalidParam \<longleftrightarrow> wg = None"
  proof (cases wg)
    case None
    then show ?thesis by (simp add: WaitGroupWithTimeout_def)
  next
    case (Some w)
    then show ?thesis
      by (cases "zero_after w (sched e) s")
         (simp_all add: WaitGroupWithTimeout_def wg_Wait_zero_after select_never select_zero_after)
  qed
next
  fix w assume "wg = Some w" "timeout < 0" "zero_after w (sched e) s = None"
  then show "fst (WaitGroupWithTimeout e wg timeout s) = NoReturn"
    by (simp add: WaitGroupWithTimeout_def wg_Wait_zero_after)
next
  fix w k assume "wg = Some w" "timeout < 0" "zero_after w (sched e) s = Some k"
  then show "WaitGroupWithTimeout e wg timeout s = (Return WaitSuccess, run (take k (sched e)) s)"
    by (simp add: WaitGroupWithTimeout_def wg_Wait_zero_after)
next
  fix w k assume "zero_after w (sched e) s = Some k"
  then show "counter (run (take k (sched e)) s) w = 0" by (rule zero_after_counter)
next
  fix w assume w: "wg = Some w" "0 \<le> timeout"
  show "fst (WaitGroupWithTimeout e wg timeout s) = Return WaitSuccess \<or>
        fst (WaitGroupWithTimeout e wg timeout s) = Return WaitTimeout"
  proof (cases "zero_after w (sched e) s")
    case None
    with w show ?thesis by (simp add: WaitGroupWithTimeout_def select_never)
  next
    case (Some k)
    with w show ?thesis by (simp add: WaitGroupWithTimeout_def select_zero_after)
  qed
next
  fix w k assume "wg = Some w" "0 \<le> timeout" "zero_after w (sched e) s = Some k \<and> k < deadline e"
  then show "WaitGroupWithTimeout e wg timeout s = (Return WaitSuccess, run (take k (sched e)) s)"
    by (simp add: WaitGroupWithTimeout_def select_zero_after)
next
  fix w k assume "zero_after w (sched e) s = Some k \<and> k < deadline e"
  then show "counter (run (take k (sched e)) s) w = 0" by (simp add: zero_after_counter)
next
  fix w assume w: "wg = Some w" "0 \<le> timeout"
    and z: "zero_after w (sched e) s = None \<or> (\<exists>k. zero_after w (sched e) s = Some k \<and> deadline e < k)"
  from z show "WaitGroupWithTimeout e wg timeout s =
              (Return WaitTimeout, run (take (deadline e) (sched e)) s)"
  proof
    assume "zero_after w (sched e) s = None"
    with w show ?thesis by (simp add: WaitGroupWithTimeout_def select_never)
  next
    assume "\<exists>k. zero_after w (sched e) s = Some k \<and> deadline e < k"
    then obtain k where "zero_after w (sched e) s = Some k" "deadline e < k" by blast
    with w show ?thesis by (simp add: WaitGroupWithTimeout_def select_zero_after)
  qed
qed


theorem WaitGroupWithTimeout_spec_witness:
  "zero_after (ChildWG 0) server_returns weblin_started = Some 3 \<and>
   zero_after (ChildWG 0) [] weblin_started = None \<and>
   fst (WaitGroupWithTimeout \<lparr>sched = server_returns, deadline = 5, pick_done = False\<rparr>
          (Some (ChildWG 0)) 50 weblin_started) = Return WaitSuccess \<and>
   fst (WaitGroupWithTimeout \<lparr>sched = server_returns, deadline = 2, pick_done = False\<rparr>
          (Some (ChildWG 0)) 50 weblin_started) = Return WaitTimeout \<and>
   fst (WaitGroupWithTimeout \<lparr>sched = server_returns, deadline = 0, pick_done = False\<rparr>
          (Some (ChildWG 0)) (- 1) weblin_started) = Return WaitSuccess \<and>
   fst (WaitGroupWithTimeout \<lparr>sched = [], deadline = 0, pick_done = False\<rparr>
          (Some (ChildWG 0)) (- 1) weblin_started) = NoReturn \<and>
   fst (WaitGroupWithTimeout \<lparr>sched = server_returns, deadline = 5, pick_done = False\<rparr>
          None 50 weblin_started) = Return WaitInvalidParam"
proof -
  have z: "zero_after (ChildWG 0) server_returns weblin_started = Some 3"
    by (simp add: server_returns_def weblin_started_eq model_defs)
  have n: "zero_after (ChildWG 0) [] weblin_started = None"
    by (simp add: weblin_started_eq)
  have 1: "fst (WaitGroupWithTimeout \<lparr>sched = server_returns, deadline = 5, pick_done = False\<rparr>
          (Some (ChildWG 0)) 50 weblin_started) = Return WaitSuccess"
    using z WaitGroupWithTimeout_spec[of "\<lparr>sched = server_returns, deadline = 5, pick_done = False\<rparr>"
        "Some (ChildWG 0)" 50 weblin_started] by simp
  have 2: "fst (WaitGroupWithTimeout \<lparr>sched = server_returns, deadline = 2, pick_done = False\<rparr>
          (Some (ChildWG 0)) 50 weblin_started) = Return WaitTimeout"
    using z WaitGroupWithTimeout_spec[of "\<lparr>sched = server_returns, deadline = 2, pick_done = False\<rparr>"
        "Some (ChildWG 0)" 50 weblin_started] by simp
  have 3: "fst (WaitGroupWithTimeout \<lparr>sched = server_returns, deadline = 0, pick_done = False\<rparr>
          (Some (ChildWG 0)) (- 1) weblin_started) = Return WaitSuccess"
    using z WaitGroupWithTimeout_spec[of "\<lparr>sched = server_returns, deadline = 0, pick_done = False\<rparr>"
        "Some (ChildWG 0)" "- 1" weblin_started] by simp
  have 4: "fst (WaitGroupWithTimeout \<lparr>sched = [], deadline = 0, pick_done = False\<rparr>
          (Some (ChildWG 0)) (- 1) weblin_started) = NoReturn"
    using n WaitGroupWithTimeout_spec[of "\<lparr>sched = [], deadline = 0, pick_done = False\<rparr>"
        "Some (ChildWG 0)" "- 1" weblin_started] by simp
  have 5: "fst (WaitGroupWithTimeout \<lparr>sched = server_returns, deadline = 5, pick_done = False\<rparr>
          None 50 weblin_started) = Return WaitInvalidParam"
    using WaitGroupWithTimeout_spec[of "\<lparr>sched = server_returns, deadline = 5, pick_done = False\<rparr>"
        None 50 weblin_started] by simp
  from z n 1 2 3 4 5 show ?thesis by blast
qed

text \<open>
  C5. \<open>RemoveTask(name, timeout)\<close> on an unregistered name returns \<open>nil\<close> and leaves the
  state as it is (so no handler is invoked and the registry is not touched). On a
  registered name it calls the task's cancel function and waits on the task's own wait
  group with \<open>WaitGroupWithTimeout\<close>; the task's context is done afterwards in every case;
  the entry is deleted exactly when the wait returned \<open>WaitSuccess\<close>, and then the call
  returns \<open>nil\<close>; when the wait timed out the call returns the timeout error and the
  registry is as before.
\<close>

theorem RemoveTask_spec:
  assumes "reachable s"
  shows
    "(tasks s name = None \<longrightarrow> RemoveTask name timeout e s = (Return None, s)) \<and>
     (\<forall>t. tasks s name = Some t \<longrightarrow>
        (let c = childCancel (heap s ! t);
             w = WaitGroupWithTimeout e (Some (ChildWG t)) timeout (call_cancel c s);
             r = RemoveTask name timeout e s
         in c \<in> canceled (snd r) \<and>
            ctx_done (canceled (snd r)) (childCtx (heap (snd r) ! t)) \<and>
            (tasks (snd r) name = None \<longleftrightarrow> fst w = Return WaitSuccess) \<and>
            (fst w = Return WaitSuccess \<longrightarrow>
               fst r = Return None \<and> tasks (snd r) = (tasks s)(name := None)) \<and>
            (fst w = Return WaitTimeout \<longrightarrow>
               fst r = Return (Some (TaskTimeout name timeout)) \<and> tasks (snd r) = tasks s) \<and>
            (fst w = NoReturn \<longrightarrow> fst r = NoReturn \<and> tasks (snd r) = tasks s) \<and>
            fst w \<noteq> Return WaitInvalidParam))"
proof (intro conjI allI impI)
  assume "tasks s name = None"
  then show "RemoveTask name timeout e s = (Return None, s)" by (simp add: RemoveTask_def)
next
  fix t assume t: "tasks s name = Some t"
  from assms have i: "gm_inv s" by (rule reachable_inv)
  define c where "c = childCancel (heap s ! t)"
  define s0 where "s0 = call_cancel c s"
  define w where "w = WaitGroupWithTimeout e (Some (ChildWG t)) timeout s0"
  define r where "r = RemoveTask name timeout e s"
  have sr: "same_registry s0 (snd w)"
    unfolding w_def by (rule same_registry_WaitGroupWithTimeout)
  have s0: "tasks s0 = tasks s" "canceled s0 = insert c (canceled s)"
    "childCtx (heap s0 ! t) = childCtx (heap s ! t)"
    by (simp_all add: s0_def call_cancel_def)
  from sr s0 have w1: "tasks (snd w) = tasks s" "canceled (snd w) = insert c (canceled s)"
    "childCtx (heap (snd w) ! t) = childCtx (heap s ! t)"
    by (simp_all add: same_registry_def)
  have ni: "fst w \<noteq> Return WaitInvalidParam"
    using WaitGroupWithTimeout_run unfolding w_def
    by (cases "zero_after (ChildWG t) (sched e) s0")
       (simp_all add: WaitGroupWithTimeout_def wg_Wait_zero_after select_never select_zero_after)
  have r: "r = (case w of
             (NoReturn, s') \<Rightarrow> (NoReturn, s')
           | (Return x, s') \<Rightarrow>
               if x \<noteq> WaitSuccess then (Return (Some (TaskTimeout name timeout)), s')
               else (Return None, s'\<lparr>tasks := (tasks s')(name := None)\<rparr>))"
    using t by (simp add: r_def RemoveTask_def w_def s0_def c_def)
  have cx: "childCtx (heap s ! t) = WithCancel c (WithCancel (parentCancel s) Background)"
    using registered_ctx(2)[OF i t] by (simp add: c_def)
  have all: "c \<in> canceled (snd r) \<and>
            ctx_done (canceled (snd r)) (childCtx (heap (snd r) ! t)) \<and>
            (tasks (snd r) name = None \<longleftrightarrow> fst w = Return WaitSuccess) \<and>
            (fst w = Return WaitSuccess \<longrightarrow>
               fst r = Return None \<and> tasks (snd r) = (tasks s)(name := None)) \<and>
            (fst w = Return WaitTimeout \<longrightarrow>
               fst r = Return (Some (TaskTimeout name timeout)) \<and> tasks (snd r) = tasks s) \<and>
            (fst w = NoReturn \<longrightarrow> fst r = NoReturn \<and> tasks (snd r) = tasks s) \<and>
            fst w \<noteq> Return WaitInvalidParam"
  proof (cases w)
    case (Pair x s')
    show ?thesis
    proof (cases x)
      case NoReturn
      with Pair r w1 t cx ni show ?thesis by simp
    next
      case (Return y)
      with Pair r w1 t cx ni show ?thesis by (cases y) simp_all
    qed
  qed
  then show "let c = childCancel (heap s ! t);
             w = WaitGroupWithTimeout e (Some (ChildWG t)) timeout (call_cancel c s);
             r = RemoveTask name timeout e s
         in c \<in> canceled (snd r) \<and>
            ctx_done (canceled (snd r)) (childCtx (heap (snd r) ! t)) \<and>
            (tasks (snd r) name = None \<longleftrightarrow> fst w = Return WaitSuccess) \<and>
            (fst w = Return WaitSuccess \<longrightarrow>
               fst r = Return None \<and> tasks (snd r) = (tasks s)(name := None)) \<and>
            (fst w = Return WaitTimeout \<longrightarrow>
               fst r = Return (Some (TaskTimeout name timeout)) \<and> tasks (snd r) = tasks s) \<and>
            (fst w = NoReturn \<longrightarrow> fst r = NoReturn \<and> tasks (snd r) = tasks s) \<and>
            fst w \<noteq> Return WaitInvalidParam"
    unfolding Let_def c_def s0_def w_def r_def .
qed


theorem RemoveTask_spec_witness:
  "reachable weblin_started \<and>
   tasks weblin_started ''server'' = Some 0 \<and>
   tasks weblin_started ''metrics'' = None \<and>
   fst (RemoveTask ''server'' 50 \<lparr>sched = server_returns, deadline = 5, pick_done = False\<rparr>
          weblin_started) = Return None \<and>
   tasks (snd (RemoveTask ''server'' 50 \<lparr>sched = server_returns, deadline = 5, pick_done = False\<rparr>
          weblin_started)) ''server'' = None \<and>
   fst (RemoveTask ''server'' 50 \<lparr>sched = [], deadline = 5, pick_done = False\<rparr>
          weblin_started) = Return (Some (TaskTimeout ''server'' 50)) \<and>
   tasks (snd (RemoveTask ''server'' 50 \<lparr>sched = [], deadline = 5, pick_done = False\<rparr>
          weblin_started)) ''server'' = Some 0 \<and>
   1 \<in> canceled (snd (RemoveTask ''server'' 50 \<lparr>sched = [], deadline = 5, pick_done = False\<rparr>
          weblin_started)) \<and>
   RemoveTask ''metrics'' 50 \<lparr>sched = [], deadline = 5, pick_done = False\<rparr> weblin_started =
     (Return None, weblin_started)"
proof -
  have t: "tasks weblin_started ''server'' = Some 0" "tasks weblin_started ''metrics'' = None"
    by (simp_all add: weblin_started_eq)
  note th = RemoveTask_spec[OF reachable_weblin_started]
  have a: "fst (RemoveTask ''server'' 50 \<lparr>sched = server_returns, deadline = 5, pick_done = False\<rparr>
          weblin_started) = Return None \<and>
   tasks (snd (RemoveTask ''server'' 50 \<lparr>sched = server_returns, deadline = 5, pick_done = False\<rparr>
          weblin_started)) ''server'' = None"
    using th[of "''server''" 50 "\<lparr>sched = server_returns, deadline = 5, pick_done = False\<rparr>"]
      t(1) weblin_started_cancel_wait(1,2)
    by (simp add: Let_def)
  have b: "fst (RemoveTask ''server'' 50 \<lparr>sched = [], deadline = 5, pick_done = False\<rparr>
          weblin_started) = Return (Some (TaskTimeout ''server'' 50)) \<and>
   tasks (snd (RemoveTask ''server'' 50 \<lparr>sched = [], deadline = 5, pick_done = False\<rparr>
          weblin_started)) ''server'' = Some 0 \<and>
   1 \<in> canceled (snd (RemoveTask ''server'' 50 \<lparr>sched = [], deadline = 5, pick_done = False\<rparr>
          weblin_started))"
    using th[of "''server''" 50 "\<lparr>sched = [], deadline = 5, pick_done = False\<rparr>"]
      t(1) weblin_started_cancel_wait(1,3)
    by (simp add: Let_def)
  have c: "RemoveTask ''metrics'' 50 \<lparr>sched = [], deadline = 5, pick_done = False\<rparr> weblin_started =
     (Return None, weblin_started)"
    using th[of "''metrics''" 50 "\<lparr>sched = [], deadline = 5, pick_done = False\<rparr>"] t(2) by simp
  from reachable_weblin_started t a b c show ?thesis by blast
qed

text \<open>
  C7. \<open>Stop(name, timeout)\<close> on a registered name does one thing of its own: it calls
  the cancel function of that task. The state it leaves is the state after that
  cancellation followed by some of the actions the goroutines took while it waited (the
  state after the cancellation exactly when there were none). Its result is decided by
  \<open>WaitGroupWithTimeout\<close> on the task's own wait group. The registry is unchanged, the
  task's cancellation signal is the only one added, and every other registered task keeps
  its wrapper's context, cancel function and function, and its context is done after the
  call exactly if it was before.
\<close>

theorem Stop_spec:
  assumes "reachable s" "tasks s name = Some t"
  shows
    "(let c = childCancel (heap s ! t);
          w = WaitGroupWithTimeout e (Some (ChildWG t)) timeout (call_cancel c s);
          r = Stop name timeout e s
      in (\<exists>k\<le>length (sched e). snd r = run (take k (sched e)) (call_cancel c s)) \<and>
         (sched e = [] \<longrightarrow> snd r = call_cancel c s) \<and>
         fst r = (case fst w of
                    NoReturn \<Rightarrow> NoReturn
                  | Return x \<Rightarrow> if x \<noteq> WaitSuccess
                      then Return (Some (TaskTimeout name timeout)) else Return None) \<and>
         tasks (snd r) = tasks s \<and>
         canceled (snd r) = insert c (canceled s) \<and>
         ctx_done (canceled (snd r)) (childCtx (heap (snd r) ! t)) \<and>
         (\<forall>name' t'. tasks s name' = Some t' \<and> name' \<noteq> name \<longrightarrow>
            t' \<noteq> t \<and>
            childCtx (heap (snd r) ! t') = childCtx (heap s ! t') \<and>
            childCancel (heap (snd r) ! t') = childCancel (heap s ! t') \<and>
            task (heap (snd r) ! t') = task (heap s ! t') \<and>
            (ctx_done (canceled (snd r)) (childCtx (heap (snd r) ! t')) \<longleftrightarrow>
             ctx_done (canceled s) (childCtx (heap s ! t')))))"
proof -
  from assms(1) have i: "gm_inv s" by (rule reachable_inv)
  define c where "c = childCancel (heap s ! t)"
  define s0 where "s0 = call_cancel c s"
  define w where "w = WaitGroupWithTimeout e (Some (ChildWG t)) timeout s0"
  define r where "r = Stop name timeout e s"
  have sw: "snd r = snd w" and fr: "fst r = (case fst w of
                    NoReturn \<Rightarrow> NoReturn
                  | Return x \<Rightarrow> if x \<noteq> WaitSuccess
                      then Return (Some (TaskTimeout name timeout)) else Return None)"
    using assms(2)
    by (auto simp: r_def Stop_def w_def s0_def c_def split: prod.splits call.splits)
  have k: "\<exists>k\<le>length (sched e). snd r = run (take k (sched e)) s0"
    unfolding sw w_def by (rule WaitGroupWithTimeout_run)
  then have e: "sched e = [] \<longrightarrow> snd r = s0" by auto
  have sr: "same_registry s0 (snd r)"
    unfolding sw w_def by (rule same_registry_WaitGroupWithTimeout)
  have s0: "tasks s0 = tasks s" "canceled s0 = insert c (canceled s)" "heap s0 = heap s"
    by (simp_all add: s0_def call_cancel_def)
  from sr s0 have f: "tasks (snd r) = tasks s" "canceled (snd r) = insert c (canceled s)"
    "\<And>b. childCtx (heap (snd r) ! b) = childCtx (heap s ! b)"
    "\<And>b. childCancel (heap (snd r) ! b) = childCancel (heap s ! b)"
    "\<And>b. task (heap (snd r) ! b) = task (heap s ! b)"
    by (simp_all add: same_registry_def)
  have cx: "childCtx (heap s ! t) = WithCancel c (WithCancel (parentCancel s) Background)"
    using registered_ctx(2)[OF i assms(2)] by (simp add: c_def)
  have d: "ctx_done (canceled (snd r)) (childCtx (heap (snd r) ! t))"
    by (simp add: f cx)
  have sib: "\<forall>name' t'. tasks s name' = Some t' \<and> name' \<noteq> name \<longrightarrow>
            t' \<noteq> t \<and>
            childCtx (heap (snd r) ! t') = childCtx (heap s ! t') \<and>
            childCancel (heap (snd r) ! t') = childCancel (heap s ! t') \<and>
            task (heap (snd r) ! t') = task (heap s ! t') \<and>
            (ctx_done (canceled (snd r)) (childCtx (heap (snd r) ! t')) \<longleftrightarrow>
             ctx_done (canceled s) (childCtx (heap s ! t')))"
  proof (intro allI impI)
    fix name' t' assume a: "tasks s name' = Some t' \<and> name' \<noteq> name"
    then have t': "tasks s name' = Some t'" "name' \<noteq> name" by simp_all
    have n: "t' \<noteq> t" "childCancel (heap s ! t') \<noteq> c"
      using siblings_differ[OF i assms(2) t'] by (simp_all add: c_def)
    have cx': "childCtx (heap s ! t') =
        WithCancel (childCancel (heap s ! t')) (WithCancel (parentCancel s) Background)"
      by (rule registered_ctx(2)[OF i t'(1)])
    have "c \<noteq> parentCancel s" using registered_ctx(3)[OF i assms(2)] by (simp add: c_def)
    then have "ctx_done (canceled (snd r)) (childCtx (heap (snd r) ! t')) \<longleftrightarrow>
             ctx_done (canceled s) (childCtx (heap s ! t'))"
      using n(2) by (auto simp add: f cx')
    with n(1) show "t' \<noteq> t \<and>
            childCtx (heap (snd r) ! t') = childCtx (heap s ! t') \<and>
            childCancel (heap (snd r) ! t') = childCancel (heap s ! t') \<and>
            task (heap (snd r) ! t') = task (heap s ! t') \<and>
            (ctx_done (canceled (snd r)) (childCtx (heap (snd r) ! t')) \<longleftrightarrow>
             ctx_done (canceled s) (childCtx (heap s ! t')))"
      by (simp add: f)
  qed
  from k e fr f(1,2) d sib show ?thesis
    unfolding Let_def c_def[symmetric] s0_def[symmetric] w_def[symmetric] r_def[symmetric]
    by blast
qed


theorem Stop_spec_witness:
  "reachable two_started \<and>
   tasks two_started ''b'' = Some 1 \<and>
   tasks two_started ''a'' = Some 0 \<and>
   fst (Stop ''b'' 50 \<lparr>sched = b_returns, deadline = 5, pick_done = False\<rparr> two_started) =
     Return None \<and>
   tasks (snd (Stop ''b'' 50 \<lparr>sched = b_returns, deadline = 5, pick_done = False\<rparr> two_started)) =
     tasks two_started \<and>
   canceled (snd (Stop ''b'' 50 \<lparr>sched = b_returns, deadline = 5, pick_done = False\<rparr> two_started)) =
     {2} \<and>
   \<not> ctx_done
      (canceled (snd (Stop ''b'' 50 \<lparr>sched = b_returns, deadline = 5, pick_done = False\<rparr> two_started)))
      (childCtx (heap (snd (Stop ''b'' 50 \<lparr>sched = b_returns, deadline = 5, pick_done = False\<rparr>
         two_started)) ! 0))"
proof -
  have t: "tasks two_started ''b'' = Some 1" "tasks two_started ''a'' = Some 0"
    "canceled two_started = {}"
    by (simp_all add: two_started_eq)
  have n: "''a'' \<noteq> ''b''" by simp
  note th = Stop_spec[OF reachable_two_started t(1),
      of "\<lparr>sched = b_returns, deadline = 5, pick_done = False\<rparr>" 50, unfolded Let_def]
  have a: "fst (Stop ''b'' 50 \<lparr>sched = b_returns, deadline = 5, pick_done = False\<rparr> two_started) =
     Return None"
    using th two_started_stop_b(1,2) by simp
  have b: "tasks (snd (Stop ''b'' 50 \<lparr>sched = b_returns, deadline = 5, pick_done = False\<rparr> two_started)) =
     tasks two_started"
    using th by blast
  have c: "canceled (snd (Stop ''b'' 50 \<lparr>sched = b_returns, deadline = 5, pick_done = False\<rparr> two_started)) =
     {2}"
    using th two_started_stop_b(1) t(3) by simp
  have "ctx_done
      (canceled (snd (Stop ''b'' 50 \<lparr>sched = b_returns, deadline = 5, pick_done = False\<rparr> two_started)))
      (childCtx (heap (snd (Stop ''b'' 50 \<lparr>sched = b_returns, deadline = 5, pick_done = False\<rparr>
         two_started)) ! 0)) \<longleftrightarrow> ctx_done (canceled two_started) (childCtx (heap two_started ! 0))"
    using th t(2) n by blast
  with two_started_stop_b(3) have d: "\<not> ctx_done
      (canceled (snd (Stop ''b'' 50 \<lparr>sched = b_returns, deadline = 5, pick_done = False\<rparr> two_started)))
      (childCtx (heap (snd (Stop ''b'' 50 \<lparr>sched = b_returns, deadline = 5, pick_done = False\<rparr>
         two_started)) ! 0))" by simp
  from reachable_two_started t(1,2) a b c d show ?thesis by blast
qed

text \<open>
  C4. \<open>StopAll\<close> calls only the manager's cancel function, and that is enough for
  every registered task to see its context done: the context of each task wrapper is a
  child of the manager's context. The task's own cancellation signal differs from the
  manager's and is fired after the call only if it was fired before, and the entry is
  still registered. This holds whether the wait that follows succeeds, times out or never
  returns.
\<close>

theorem StopAll_cancels_tasks:
  assumes "reachable s" "tasks s name = Some t"
  shows
    "(let r = StopAll timeout e s
      in canceled (snd r) = insert (parentCancel s) (canceled s) \<and>
         tasks (snd r) name = Some t \<and>
         childCtx (heap (snd r) ! t) =
           WithCancel (childCancel (heap s ! t)) (parentCtx s) \<and>
         ctx_done (canceled (snd r)) (childCtx (heap (snd r) ! t)) \<and>
         childCancel (heap (snd r) ! t) \<noteq> parentCancel s \<and>
         (childCancel (heap (snd r) ! t) \<in> canceled (snd r) \<longleftrightarrow>
          childCancel (heap s ! t) \<in> canceled s))"
proof -
  from assms(1) have i: "gm_inv s" by (rule reachable_inv)
  define s0 where "s0 = call_cancel (parentCancel s) s"
  define w where "w = WaitGroupWithTimeout e (Some ParentWG) timeout s0"
  define r where "r = StopAll timeout e s"
  have sw: "snd r = snd w"
    by (auto simp: r_def StopAll_def w_def s0_def split: prod.splits call.splits)
  have sr: "same_registry s0 (snd r)"
    unfolding sw w_def by (rule same_registry_WaitGroupWithTimeout)
  have s0: "tasks s0 = tasks s" "canceled s0 = insert (parentCancel s) (canceled s)"
    "heap s0 = heap s"
    by (simp_all add: s0_def call_cancel_def)
  from sr s0 have f: "tasks (snd r) = tasks s"
    "canceled (snd r) = insert (parentCancel s) (canceled s)"
    "childCtx (heap (snd r) ! t) = childCtx (heap s ! t)"
    "childCancel (heap (snd r) ! t) = childCancel (heap s ! t)"
    by (simp_all add: same_registry_def)
  have p: "parentCtx s = WithCancel (parentCancel s) Background"
    using i by (simp add: inv_defs)
  note c = registered_ctx[OF i assms(2)]
  have "canceled (snd r) = insert (parentCancel s) (canceled s) \<and>
         tasks (snd r) name = Some t \<and>
         childCtx (heap (snd r) ! t) =
           WithCancel (childCancel (heap s ! t)) (parentCtx s) \<and>
         ctx_done (canceled (snd r)) (childCtx (heap (snd r) ! t)) \<and>
         childCancel (heap (snd r) ! t) \<noteq> parentCancel s \<and>
         (childCancel (heap (snd r) ! t) \<in> canceled (snd r) \<longleftrightarrow>
          childCancel (heap s ! t) \<in> canceled s)"
    using c(2,3) assms(2) by (simp add: f p)
  then show ?thesis unfolding Let_def r_def .
qed

theorem StopAll_cancels_tasks_witness:
  "reachable two_started \<and>
   tasks two_started ''b'' = Some 1 \<and>
   canceled (snd (StopAll 1000 \<lparr>sched = b_returns, deadline = 2, pick_done = False\<rparr> two_started))
     = {0} \<and>
   ctx_done
     (canceled (snd (StopAll 1000 \<lparr>sched = b_returns, deadline = 2, pick_done = False\<rparr> two_started)))
     (childCtx (heap (snd (StopAll 1000 \<lparr>sched = b_returns, deadline = 2, pick_done = False\<rparr>
        two_started)) ! 1)) \<and>
   childCancel (heap (snd (StopAll 1000 \<lparr>sched = b_returns, deadline = 2, pick_done = False\<rparr>
        two_started)) ! 1) \<notin>
     canceled (snd (StopAll 1000 \<lparr>sched = b_returns, deadline = 2, pick_done = False\<rparr> two_started))"
proof -
  have t: "tasks two_started ''b'' = Some 1" "canceled two_started = {}"
    "parentCancel two_started = 0"
    by (simp_all add: two_started_eq)
  note th = StopAll_cancels_tasks[OF reachable_two_started t(1),
      of 1000 "\<lparr>sched = b_returns, deadline = 2, pick_done = False\<rparr>", unfolded Let_def]
  from th have a:
    "canceled (snd (StopAll 1000 \<lparr>sched = b_returns, deadline = 2, pick_done = False\<rparr> two_started))
       = insert (parentCancel two_started) (canceled two_started)"
    "ctx_done
       (canceled (snd (StopAll 1000 \<lparr>sched = b_returns, deadline = 2, pick_done = False\<rparr> two_started)))
       (childCtx (heap (snd (StopAll 1000 \<lparr>sched = b_returns, deadline = 2, pick_done = False\<rparr>
          two_started)) ! 1))"
    "childCancel (heap (snd (StopAll 1000 \<lparr>sched = b_returns, deadline = 2, pick_done = False\<rparr>
          two_started)) ! 1) \<in>
       canceled (snd (StopAll 1000 \<lparr>sched = b_returns, deadline = 2, pick_done = False\<rparr> two_started))
     \<longleftrightarrow> childCancel (heap two_started ! 1) \<in> canceled two_started"
    by blast+
  from a(1) t(2,3) have b:
    "canceled (snd (StopAll 1000 \<lparr>sched = b_returns, deadline = 2, pick_done = False\<rparr> two_started))
       = {0}" by simp
  from a(3) t(2) have c:
    "childCancel (heap (snd (StopAll 1000 \<lparr>sched = b_returns, deadline = 2, pick_done = False\<rparr>
          two_started)) ! 1) \<notin>
       canceled (snd (StopAll 1000 \<lparr>sched = b_returns, deadline = 2, pick_done = False\<rparr> two_started))"
    by simp
  from reachable_two_started t(1) b a(2) c show ?thesis by blast
qed

text \<open>
  C9. \<open>Start(name)\<close> on an unregistered name returns the error "task does not exist"
  and leaves the state as it is, so nothing is launched. On a registered name it returns
  \<open>nil\<close> and does what \<open>StartAll\<close> does for that one entry: the same two \<open>Add\<close>
  calls followed by the same \<open>go\<close> statement, which appends one goroutine for the task's
  wrapper; when no other goroutine moves meanwhile, both counters have grown by one and the
  new goroutine is at the start of the wrapper.
\<close>

theorem Start_spec:
  assumes "reachable s"
  shows "(tasks s name = None \<longrightarrow> Start name iv s = (Some (TaskNotExist name), s)) \<and>
         (\<forall>t. tasks s name = Some t \<longrightarrow>
            fst (Start name iv s) = None \<and>
            snd (Start name iv s) = StartAll [(name, iv)] s \<and>
            map tw (pool (snd (Start name iv s))) = map tw (pool s) @ [t] \<and>
            (iv = quiet \<longrightarrow>
               parentWG (snd (Start name iv s)) = parentWG s + 1 \<and>
               childWG (heap (snd (Start name iv s)) ! t) = childWG (heap s ! t) + 1 \<and>
               pool (snd (Start name iv s)) = pool s @ [\<lparr>tw = t, pc = PcTask\<rparr>]))"
proof (intro conjI allI impI)
  assume "tasks s name = None"
  then show "Start name iv s = (Some (TaskNotExist name), s)" by (simp add: Start_def)
next
  fix t assume t: "tasks s name = Some t"
  from assms have "gm_inv s" by (rule reachable_inv)
  with t have l: "t < length (heap s)" by (auto simp: inv_defs)
  from t show "fst (Start name iv s) = None" by (simp add: Start_def)
  from t show "snd (Start name iv s) = StartAll [(name, iv)] s" by (simp add: Start_def)
  from t show "map tw (pool (snd (Start name iv s))) = map tw (pool s) @ [t]"
    by (simp add: Start_def launch_tw)
  {
    assume q: "iv = quiet"
    from t l q show "parentWG (snd (Start name iv s)) = parentWG s + 1"
      by (simp add: Start_def quiet_def quiet_launch_effect)
    from t l q show "childWG (heap (snd (Start name iv s)) ! t) = childWG (heap s ! t) + 1"
      by (simp add: Start_def quiet_def quiet_launch_effect)
    from t l q show "pool (snd (Start name iv s)) = pool s @ [\<lparr>tw = t, pc = PcTask\<rparr>]"
      by (simp add: Start_def quiet_def quiet_launch_effect)
  }
qed

theorem Start_spec_witness:
  "reachable weblin_registered \<and>
   Start ''metrics'' quiet weblin_registered = (Some (TaskNotExist ''metrics''), weblin_registered) \<and>
   fst (Start ''server'' quiet weblin_registered) = None \<and>
   snd (Start ''server'' quiet weblin_registered) = StartAll [(''server'', quiet)] weblin_registered \<and>
   parentWG (snd (Start ''server'' quiet weblin_registered)) = 1 \<and>
   childWG (heap (snd (Start ''server'' quiet weblin_registered)) ! 0) = 1 \<and>
   pool (snd (Start ''server'' quiet weblin_registered)) = [\<lparr>tw = 0, pc = PcTask\<rparr>]"
proof -
  have t: "tasks weblin_registered ''metrics'' = None" "tasks weblin_registered ''server'' = Some 0"
    by (simp_all add: weblin_registered_eq)
  have v: "parentWG weblin_registered = 0" "childWG (heap weblin_registered ! 0) = 0"
    "pool weblin_registered = []"
    by (simp_all add: weblin_registered_eq)
  note th = Start_spec[OF reachable_weblin_registered]
  from th[of "''server''" quiet] t(2)
  have b: "fst (Start ''server'' quiet weblin_registered) = None"
    "snd (Start ''server'' quiet weblin_registered) = StartAll [(''server'', quiet)] weblin_registered"
    "parentWG (snd (Start ''server'' quiet weblin_registered)) = parentWG weblin_registered + 1"
    "childWG (heap (snd (Start ''server'' quiet weblin_registered)) ! 0) =
       childWG (heap weblin_registered ! 0) + 1"
    "pool (snd (Start ''server'' quiet weblin_registered)) =
       pool weblin_registered @ [\<lparr>tw = 0, pc = PcTask\<rparr>]"
    by blast+
  show ?thesis
  proof (intro conjI)
    show "reachable weblin_registered" by (rule reachable_weblin_registered)
    show "Start ''metrics'' quiet weblin_registered =
        (Some (TaskNotExist ''metrics''), weblin_registered)"
      using th[of "''metrics''" quiet] t(1) by blast
    show "fst (Start ''server'' quiet weblin_registered) = None" by (rule b(1))
    show "snd (Start ''server'' quiet weblin_registered) =
        StartAll [(''server'', quiet)] weblin_registered"
      by (rule b(2))
    show "parentWG (snd (Start ''server'' quiet weblin_registered)) = 1" using b(3) v(1) by simp
    show "childWG (heap (snd (Start ''server'' quiet weblin_registered)) ! 0) = 1"
      using b(4) v(2) by simp
    show "pool (snd (Start ''server'' quiet weblin_registered)) = [\<lparr>tw = 0, pc = PcTask\<rparr>]"
      using b(5) v(3) by simp
  qed
qed

text \<open>
  C3. In every launch of \<open>StartAll\<close>, whatever the goroutines launched earlier do
  between its statements, both counters are positive at the moment the \<open>go\<close> statement
  is executed: the two \<open>Add(1)\<close> calls have come first. When \<open>StartAll\<close> returns, one
  goroutine has been launched for the wrapper of every registered task. From then on (also
  immediately, before any further action), a goroutine that has not yet executed
  \<open>tw.childWG.Done()\<close> finds its task's counter positive, and one that has not yet
  executed \<open>gm.parentWG.Done()\<close> finds the manager's counter positive: no goroutine can
  report completion before the counters count it. When no goroutine moves during
  \<open>StartAll\<close>, every new goroutine is at the start of the wrapper, the manager's
  counter has grown by the number of tasks, and the counter of every registered task has
  grown by one and is positive.
\<close>

theorem StartAll_counts_before_launch:
  assumes "reachable s" "range_order (map fst kes) s"
  shows
    "(\<forall>pre k iv post t. kes = pre @ (k, iv) # post \<and> tasks s k = Some t \<longrightarrow>
        0 < parentWG (run (after_childAdd iv) (childWG_Add t
              (run (after_parentAdd iv) (parentWG_Add (StartAll pre s))))) \<and>
        0 < childWG (heap (run (after_childAdd iv) (childWG_Add t
              (run (after_parentAdd iv) (parentWG_Add (StartAll pre s))))) ! t)) \<and>
     map tw (pool (StartAll kes s)) =
       map tw (pool s) @ List.map_filter (tasks s) (map fst kes) \<and>
     (\<forall>name t. tasks s name = Some t \<longrightarrow>
        t \<in> set (List.map_filter (tasks s) (map fst kes))) \<and>
     (\<forall>as g. g < length (pool (run as (StartAll kes s))) \<longrightarrow>
        (holds_child (pc (pool (run as (StartAll kes s)) ! g)) \<longrightarrow>
           0 < childWG (heap (run as (StartAll kes s)) ! tw (pool (run as (StartAll kes s)) ! g))) \<and>
        (holds_parent (pc (pool (run as (StartAll kes s)) ! g)) \<longrightarrow>
           0 < parentWG (run as (StartAll kes s)))) \<and>
     ((\<forall>kv \<in> set kes. snd kv = quiet) \<longrightarrow>
        pool (StartAll kes s) =
          pool s @ map (\<lambda>t. \<lparr>tw = t, pc = PcTask\<rparr>) (List.map_filter (tasks s) (map fst kes)) \<and>
        parentWG (StartAll kes s) = parentWG s + int (length kes) \<and>
        (\<forall>name t. tasks s name = Some t \<longrightarrow>
           childWG (heap (StartAll kes s) ! t) = childWG (heap s ! t) + 1 \<and>
           0 < childWG (heap (StartAll kes s) ! t)))"
proof -
  from assms(1) have i: "gm_inv s" by (rule reachable_inv)
  from assms(2) have d: "distinct (map fst kes)" "set (map fst kes) = dom (tasks s)"
    by (simp_all add: range_order_def)
  have reg: "t < length (heap s)" if "tasks s name = Some t" for name t
    using i that by (auto simp: inv_defs)
  have 1: "\<forall>pre k iv post t. kes = pre @ (k, iv) # post \<and> tasks s k = Some t \<longrightarrow>
        0 < parentWG (run (after_childAdd iv) (childWG_Add t
              (run (after_parentAdd iv) (parentWG_Add (StartAll pre s))))) \<and>
        0 < childWG (heap (run (after_childAdd iv) (childWG_Add t
              (run (after_parentAdd iv) (parentWG_Add (StartAll pre s))))) ! t)"
  proof (intro allI impI)
    fix pre k iv post t
    assume a: "kes = pre @ (k, iv) # post \<and> tasks s k = Some t"
    from i have j: "gm_inv (StartAll pre s)" by (rule inv_StartAll)
    from a have "t < length (heap s)" using reg by blast
    then have l: "t < length (heap (StartAll pre s))" by (simp add: StartAll_tasks)
    show "0 < parentWG (run (after_childAdd iv) (childWG_Add t
              (run (after_parentAdd iv) (parentWG_Add (StartAll pre s))))) \<and>
        0 < childWG (heap (run (after_childAdd iv) (childWG_Add t
              (run (after_parentAdd iv) (parentWG_Add (StartAll pre s))))) ! t)"
      using before_go_counted[OF j l] by blast
  qed
  have 2: "map tw (pool (StartAll kes s)) =
       map tw (pool s) @ List.map_filter (tasks s) (map fst kes)"
    by (rule StartAll_tw)
  have 3: "\<forall>name t. tasks s name = Some t \<longrightarrow>
        t \<in> set (List.map_filter (tasks s) (map fst kes))"
  proof (intro allI impI)
    fix name t assume t: "tasks s name = Some t"
    with d(2) have "name \<in> set (map fst kes)" by auto
    with t show "t \<in> set (List.map_filter (tasks s) (map fst kes))"
      by (force simp: List.map_filter_def)
  qed
  have 4: "\<forall>as g. g < length (pool (run as (StartAll kes s))) \<longrightarrow>
        (holds_child (pc (pool (run as (StartAll kes s)) ! g)) \<longrightarrow>
           0 < childWG (heap (run as (StartAll kes s)) ! tw (pool (run as (StartAll kes s)) ! g))) \<and>
        (holds_parent (pc (pool (run as (StartAll kes s)) ! g)) \<longrightarrow>
           0 < parentWG (run as (StartAll kes s)))"
  proof (intro allI impI conjI)
    fix as g assume g: "g < length (pool (run as (StartAll kes s)))"
    from i have "gm_inv (run as (StartAll kes s))" by (intro inv_run inv_StartAll)
    then have j: "inv_wg_ahead 0 (\<lambda>a. 0) (run as (StartAll kes s))"
      "inv_heap (run as (StartAll kes s))"
      by (simp_all add: gm_inv_def gm_inv_ahead_def)
    {
      assume "holds_child (pc (pool (run as (StartAll kes s)) ! g))"
      with j g show "0 < childWG (heap (run as (StartAll kes s)) ! tw (pool (run as (StartAll kes s)) ! g))"
        by (intro child_outstanding_pos[of 0 "\<lambda>a. 0"]) simp_all
    }
    {
      assume "holds_parent (pc (pool (run as (StartAll kes s)) ! g))"
      with j g show "0 < parentWG (run as (StartAll kes s))"
        by (intro parent_outstanding_pos[of 0 "\<lambda>a. 0" _ g]) simp_all
    }
  qed
  have 5: "(\<forall>kv \<in> set kes. snd kv = quiet) \<longrightarrow>
        pool (StartAll kes s) =
          pool s @ map (\<lambda>t. \<lparr>tw = t, pc = PcTask\<rparr>) (List.map_filter (tasks s) (map fst kes)) \<and>
        parentWG (StartAll kes s) = parentWG s + int (length kes) \<and>
        (\<forall>name t. tasks s name = Some t \<longrightarrow>
           childWG (heap (StartAll kes s) ! t) = childWG (heap s ! t) + 1 \<and>
           0 < childWG (heap (StartAll kes s) ! t))"
  proof
    assume "\<forall>kv \<in> set kes. snd kv = quiet"
    then have q: "kes = map (\<lambda>k. (k, quiet)) (map fst kes)" by (rule all_quiet)
    define ks where "ks = map fst kes"
    have q': "StartAll kes s = StartAll (map (\<lambda>k. (k, quiet)) ks) s"
      unfolding ks_def using q by simp
    have l: "length (List.map_filter (tasks s) ks) = length kes"
      using d(2) map_filter_all[of ks "tasks s"] by (simp add: ks_def)
    have a: "pool (StartAll kes s) =
          pool s @ map (\<lambda>t. \<lparr>tw = t, pc = PcTask\<rparr>) (List.map_filter (tasks s) ks)"
      unfolding q' by (rule quiet_StartAll_pool)
    have b: "parentWG (StartAll kes s) = parentWG s + int (length kes)"
      unfolding q' using l by (simp add: quiet_StartAll_parentWG)
    have c: "\<forall>name t. tasks s name = Some t \<longrightarrow>
           childWG (heap (StartAll kes s) ! t) = childWG (heap s ! t) + 1 \<and>
           0 < childWG (heap (StartAll kes s) ! t)"
    proof (intro allI impI)
      fix name t assume t: "tasks s name = Some t"
      with d(2) have n: "name \<in> set ks" by (auto simp: ks_def)
      have tl: "t < length (heap s)" using reg t by blast
      have "childWG (heap (StartAll (map (\<lambda>k. (k, quiet)) ks) s) ! t) =
         childWG (heap s ! t) + (if \<exists>k \<in> set ks. tasks s k = Some t then 1 else 0)"
        using i d(1) tl by (intro quiet_StartAll_childWG) (auto simp: inv_defs ks_def)
      with n t have e: "childWG (heap (StartAll kes s) ! t) = childWG (heap s ! t) + 1"
        unfolding q' by auto
      from i tl have "0 \<le> childWG (heap s ! t)" by (simp add: inv_defs)
      with e show "childWG (heap (StartAll kes s) ! t) = childWG (heap s ! t) + 1 \<and>
           0 < childWG (heap (StartAll kes s) ! t)" by simp
    qed
    from a b c show "pool (StartAll kes s) =
          pool s @ map (\<lambda>t. \<lparr>tw = t, pc = PcTask\<rparr>) (List.map_filter (tasks s) (map fst kes)) \<and>
        parentWG (StartAll kes s) = parentWG s + int (length kes) \<and>
        (\<forall>name t. tasks s name = Some t \<longrightarrow>
           childWG (heap (StartAll kes s) ! t) = childWG (heap s ! t) + 1 \<and>
           0 < childWG (heap (StartAll kes s) ! t))"
      unfolding ks_def by blast
  qed
  from 1 2 3 4 5 show ?thesis by (intro conjI)
qed


theorem StartAll_counts_before_launch_witness:
  "reachable two_registered \<and>
   range_order (map fst a_ends_during_b) two_registered \<and>
   map tw (pool (StartAll a_ends_during_b two_registered)) = [0, 1] \<and>
   pc (pool (StartAll a_ends_during_b two_registered) ! 1) = PcTask \<and>
   0 < childWG (heap (StartAll a_ends_during_b two_registered) ! 1) \<and>
   0 < parentWG (StartAll a_ends_during_b two_registered) \<and>
   pool (StartAll [(''a'', quiet), (''b'', quiet)] two_registered) =
     [\<lparr>tw = 0, pc = PcTask\<rparr>, \<lparr>tw = 1, pc = PcTask\<rparr>] \<and>
   parentWG (StartAll [(''a'', quiet), (''b'', quiet)] two_registered) = 2 \<and>
   childWG (heap (StartAll [(''a'', quiet), (''b'', quiet)] two_registered) ! 0) = 1"
proof -
  have ro: "range_order (map fst a_ends_during_b) two_registered"
    by (auto simp: a_ends_during_b_def two_registered_eq range_order_def)
  have ro2: "range_order (map fst [(''a'', quiet), (''b'', quiet)]) two_registered"
    by (auto simp: two_registered_eq range_order_def)
  have v: "map tw (pool two_registered) = []" "pool two_registered = []"
    "parentWG two_registered = 0" "childWG (heap two_registered ! 0) = 0"
    "tasks two_registered ''a'' = Some 0"
    "List.map_filter (tasks two_registered) (map fst a_ends_during_b) = [0, 1]"
    "List.map_filter (tasks two_registered) (map fst [(''a'', quiet), (''b'', quiet)]) = [0, 1]"
    by (simp_all add: two_registered_eq a_ends_during_b_def List.map_filter_simps)
  have g: "1 < length (pool (run [] (StartAll a_ends_during_b two_registered)))"
    "holds_child (pc (pool (run [] (StartAll a_ends_during_b two_registered)) ! 1))"
    "holds_parent (pc (pool (run [] (StartAll a_ends_during_b two_registered)) ! 1))"
    "tw (pool (run [] (StartAll a_ends_during_b two_registered)) ! 1) = 1"
    "pc (pool (StartAll a_ends_during_b two_registered) ! 1) = PcTask"
    by (simp_all add: a_ends_during_b_eq holds_child_def holds_parent_def)
  note th = StartAll_counts_before_launch[OF reachable_two_registered ro]
  note th2 = StartAll_counts_before_launch[OF reachable_two_registered ro2]
  from th have a: "map tw (pool (StartAll a_ends_during_b two_registered)) =
      map tw (pool two_registered) @
      List.map_filter (tasks two_registered) (map fst a_ends_during_b)"
    by blast
  from th have "\<forall>as g. g < length (pool (run as (StartAll a_ends_during_b two_registered))) \<longrightarrow>
        (holds_child (pc (pool (run as (StartAll a_ends_during_b two_registered)) ! g)) \<longrightarrow>
           0 < childWG (heap (run as (StartAll a_ends_during_b two_registered)) !
                 tw (pool (run as (StartAll a_ends_during_b two_registered)) ! g))) \<and>
        (holds_parent (pc (pool (run as (StartAll a_ends_during_b two_registered)) ! g)) \<longrightarrow>
           0 < parentWG (run as (StartAll a_ends_during_b two_registered)))"
    by blast
  from this[rule_format, OF g(1)] g(2,3)
  have b: "0 < childWG (heap (run [] (StartAll a_ends_during_b two_registered)) !
                 tw (pool (run [] (StartAll a_ends_during_b two_registered)) ! 1))"
    "0 < parentWG (run [] (StartAll a_ends_during_b two_registered))"
    by blast+
  have q: "\<forall>kv \<in> set [(''a'', quiet), (''b'', quiet)]. snd kv = quiet" by simp
  from th2 q have c:
    "pool (StartAll [(''a'', quiet), (''b'', quiet)] two_registered) =
       pool two_registered @ map (\<lambda>t. \<lparr>tw = t, pc = PcTask\<rparr>)
         (List.map_filter (tasks two_registered) (map fst [(''a'', quiet), (''b'', quiet)]))"
    "parentWG (StartAll [(''a'', quiet), (''b'', quiet)] two_registered) =
       parentWG two_registered + int (length [(''a'', quiet), (''b'', quiet)])"
    "\<forall>name t. tasks two_registered name = Some t \<longrightarrow>
       childWG (heap (StartAll [(''a'', quiet), (''b'', quiet)] two_registered) ! t) =
         childWG (heap two_registered ! t) + 1 \<and>
       0 < childWG (heap (StartAll [(''a'', quiet), (''b'', quiet)] two_registered) ! t)"
    by blast+
  from c(3) v(5) have c3:
    "childWG (heap (StartAll [(''a'', quiet), (''b'', quiet)] two_registered) ! 0) =
       childWG (heap two_registered ! 0) + 1" by blast
  show ?thesis
  proof (intro conjI)
    show "reachable two_registered" by (rule reachable_two_registered)
    show "range_order (map fst a_ends_during_b) two_registered" by (rule ro)
    show "map tw (pool (StartAll a_ends_during_b two_registered)) = [0, 1]"
      using a unfolding v(6) v(1) by simp
    show "pc (pool (StartAll a_ends_during_b two_registered) ! 1) = PcTask" by (rule g(5))
    show "0 < childWG (heap (StartAll a_ends_during_b two_registered) ! 1)"
      using b(1) g(4) by simp
    show "0 < parentWG (StartAll a_ends_during_b two_registered)" using b(2) by simp
    show "pool (StartAll [(''a'', quiet), (''b'', quiet)] two_registered) =
        [\<lparr>tw = 0, pc = PcTask\<rparr>, \<lparr>tw = 1, pc = PcTask\<rparr>]"
      using c(1) unfolding v(7) v(2) by simp
    show "parentWG (StartAll [(''a'', quiet), (''b'', quiet)] two_registered) = 2"
      using c(2) v(3) by simp
    show "childWG (heap (StartAll [(''a'', quiet), (''b'', quiet)] two_registered) ! 0) = 1"
      using c3 v(4) by simp
  qed
qed

text \<open>
  C1. A goroutine launched by \<open>StartAll\<close> or \<open>Start\<close> is in its task. When the task
  panics with \<open>p\<close>, \<open>recover()\<close> in the deferred function stops the panic: the process
  goes on. When a handler is set it is invoked with \<open>p\<close>, once, and at that moment
  neither counter has been touched; when it returns, \<open>tw.childWG.Done()\<close> takes one from
  the counter of the task and then \<open>gm.parentWG.Done()\<close> takes one from the counter of
  the manager. When no handler is set the two \<open>Done\<close> calls follow \<open>recover()\<close>
  directly. Neither \<open>Done\<close> panics, nothing else in the state changes, and the
  goroutine has ended: no further action of it changes anything, so each step happened
  exactly once. (A handler that panics itself is the subject of C2.)
\<close>

theorem wrapper_recovers_task_panic:
  assumes "reachable s" "crashed s = None" "g < length (pool s)" "pc (pool s ! g) = PcTask"
  shows
    "(PanicHandler s \<noteq> None \<longrightarrow>
        run [Ends g (Panic p), Step g] s =
          s\<lparr>pool := (pool s)[g := (pool s ! g)\<lparr>pc := PcHandler p\<rparr>],
            handler_calls := handler_calls s @ [p]\<rparr> \<and>
        run [Ends g (Panic p), Step g, Ends g Normal, Step g] s =
          s\<lparr>pool := (pool s)[g := (pool s ! g)\<lparr>pc := PcParentDone\<rparr>],
            handler_calls := handler_calls s @ [p],
            heap := (heap s)[tw (pool s ! g) :=
              (heap s ! tw (pool s ! g))\<lparr>childWG := childWG (heap s ! tw (pool s ! g)) - 1\<rparr>]\<rparr> \<and>
        run [Ends g (Panic p), Step g, Ends g Normal, Step g, Step g] s =
          s\<lparr>pool := (pool s)[g := (pool s ! g)\<lparr>pc := PcExit\<rparr>],
            handler_calls := handler_calls s @ [p],
            heap := (heap s)[tw (pool s ! g) :=
              (heap s ! tw (pool s ! g))\<lparr>childWG := childWG (heap s ! tw (pool s ! g)) - 1\<rparr>],
            parentWG := parentWG s - 1\<rparr> \<and>
        (\<forall>oc. gexec (Step g) (run [Ends g (Panic p), Step g, Ends g Normal, Step g, Step g] s) =
                run [Ends g (Panic p), Step g, Ends g Normal, Step g, Step g] s \<and>
              gexec (Ends g oc) (run [Ends g (Panic p), Step g, Ends g Normal, Step g, Step g] s) =
                run [Ends g (Panic p), Step g, Ends g Normal, Step g, Step g] s)) \<and>
     (PanicHandler s = None \<longrightarrow>
        run [Ends g (Panic p), Step g] s =
          s\<lparr>pool := (pool s)[g := (pool s ! g)\<lparr>pc := PcChildDone\<rparr>]\<rparr> \<and>
        run [Ends g (Panic p), Step g, Step g] s =
          s\<lparr>pool := (pool s)[g := (pool s ! g)\<lparr>pc := PcParentDone\<rparr>],
            heap := (heap s)[tw (pool s ! g) :=
              (heap s ! tw (pool s ! g))\<lparr>childWG := childWG (heap s ! tw (pool s ! g)) - 1\<rparr>]\<rparr> \<and>
        run [Ends g (Panic p), Step g, Step g, Step g] s =
          s\<lparr>pool := (pool s)[g := (pool s ! g)\<lparr>pc := PcExit\<rparr>],
            heap := (heap s)[tw (pool s ! g) :=
              (heap s ! tw (pool s ! g))\<lparr>childWG := childWG (heap s ! tw (pool s ! g)) - 1\<rparr>],
            parentWG := parentWG s - 1\<rparr> \<and>
        (\<forall>oc. gexec (Step g) (run [Ends g (Panic p), Step g, Step g, Step g] s) =
                run [Ends g (Panic p), Step g, Step g, Step g] s \<and>
              gexec (Ends g oc) (run [Ends g (Panic p), Step g, Step g, Step g] s) =
                run [Ends g (Panic p), Step g, Step g, Step g] s)) \<and>
     tw (pool s ! g) < length (heap s) \<and>
     0 < childWG (heap s ! tw (pool s ! g)) \<and> 0 < parentWG s"
proof -
  from assms(4) have hc: "holds_child (pc (pool s ! g))" by (simp add: holds_child_def)
  note pos = launched_counted[OF assms(1,3) hc]
  from assms(1) have "gm_inv s" by (rule reachable_inv)
  with assms(3) have l: "tw (pool s ! g) < length (heap s)" by (simp add: inv_defs)
  have A: "PanicHandler s \<noteq> None \<longrightarrow>
        run [Ends g (Panic p), Step g] s =
          s\<lparr>pool := (pool s)[g := (pool s ! g)\<lparr>pc := PcHandler p\<rparr>],
            handler_calls := handler_calls s @ [p]\<rparr> \<and>
        run [Ends g (Panic p), Step g, Ends g Normal, Step g] s =
          s\<lparr>pool := (pool s)[g := (pool s ! g)\<lparr>pc := PcParentDone\<rparr>],
            handler_calls := handler_calls s @ [p],
            heap := (heap s)[tw (pool s ! g) :=
              (heap s ! tw (pool s ! g))\<lparr>childWG := childWG (heap s ! tw (pool s ! g)) - 1\<rparr>]\<rparr> \<and>
        run [Ends g (Panic p), Step g, Ends g Normal, Step g, Step g] s =
          s\<lparr>pool := (pool s)[g := (pool s ! g)\<lparr>pc := PcExit\<rparr>],
            handler_calls := handler_calls s @ [p],
            heap := (heap s)[tw (pool s ! g) :=
              (heap s ! tw (pool s ! g))\<lparr>childWG := childWG (heap s ! tw (pool s ! g)) - 1\<rparr>],
            parentWG := parentWG s - 1\<rparr> \<and>
        (\<forall>oc. gexec (Step g) (run [Ends g (Panic p), Step g, Ends g Normal, Step g, Step g] s) =
                run [Ends g (Panic p), Step g, Ends g Normal, Step g, Step g] s \<and>
              gexec (Ends g oc) (run [Ends g (Panic p), Step g, Ends g Normal, Step g, Step g] s) =
                run [Ends g (Panic p), Step g, Ends g Normal, Step g, Step g] s)"
  proof
    assume "PanicHandler s \<noteq> None"
    then obtain h where h: "PanicHandler s = Some h" by blast
    note e1 = task_panic_handled[OF assms(2,3,4) h, of p]
    note e2 = task_panic_handled_done[OF assms(2,3,4) h refl pos, of p]
    have f: "\<forall>oc. gexec (Step g) (run [Ends g (Panic p), Step g, Ends g Normal, Step g, Step g] s) =
                run [Ends g (Panic p), Step g, Ends g Normal, Step g, Step g] s \<and>
              gexec (Ends g oc) (run [Ends g (Panic p), Step g, Ends g Normal, Step g, Step g] s) =
                run [Ends g (Panic p), Step g, Ends g Normal, Step g, Step g] s"
      unfolding e2(2) using assms(3) by simp
    from e1 e2 f show "run [Ends g (Panic p), Step g] s =
          s\<lparr>pool := (pool s)[g := (pool s ! g)\<lparr>pc := PcHandler p\<rparr>],
            handler_calls := handler_calls s @ [p]\<rparr> \<and>
        run [Ends g (Panic p), Step g, Ends g Normal, Step g] s =
          s\<lparr>pool := (pool s)[g := (pool s ! g)\<lparr>pc := PcParentDone\<rparr>],
            handler_calls := handler_calls s @ [p],
            heap := (heap s)[tw (pool s ! g) :=
              (heap s ! tw (pool s ! g))\<lparr>childWG := childWG (heap s ! tw (pool s ! g)) - 1\<rparr>]\<rparr> \<and>
        run [Ends g (Panic p), Step g, Ends g Normal, Step g, Step g] s =
          s\<lparr>pool := (pool s)[g := (pool s ! g)\<lparr>pc := PcExit\<rparr>],
            handler_calls := handler_calls s @ [p],
            heap := (heap s)[tw (pool s ! g) :=
              (heap s ! tw (pool s ! g))\<lparr>childWG := childWG (heap s ! tw (pool s ! g)) - 1\<rparr>],
            parentWG := parentWG s - 1\<rparr> \<and>
        (\<forall>oc. gexec (Step g) (run [Ends g (Panic p), Step g, Ends g Normal, Step g, Step g] s) =
                run [Ends g (Panic p), Step g, Ends g Normal, Step g, Step g] s \<and>
              gexec (Ends g oc) (run [Ends g (Panic p), Step g, Ends g Normal, Step g, Step g] s) =
                run [Ends g (Panic p), Step g, Ends g Normal, Step g, Step g] s)"
      by blast
  qed
  have B: "PanicHandler s = None \<longrightarrow>
        run [Ends g (Panic p), Step g] s =
          s\<lparr>pool := (pool s)[g := (pool s ! g)\<lparr>pc := PcChildDone\<rparr>]\<rparr> \<and>
        run [Ends g (Panic p), Step g, Step g] s =
          s\<lparr>pool := (pool s)[g := (pool s ! g)\<lparr>pc := PcParentDone\<rparr>],
            heap := (heap s)[tw (pool s ! g) :=
              (heap s ! tw (pool s ! g))\<lparr>childWG := childWG (heap s ! tw (pool s ! g)) - 1\<rparr>]\<rparr> \<and>
        run [Ends g (Panic p), Step g, Step g, Step g] s =
          s\<lparr>pool := (pool s)[g := (pool s ! g)\<lparr>pc := PcExit\<rparr>],
            heap := (heap s)[tw (pool s ! g) :=
              (heap s ! tw (pool s ! g))\<lparr>childWG := childWG (heap s ! tw (pool s ! g)) - 1\<rparr>],
            parentWG := parentWG s - 1\<rparr> \<and>
        (\<forall>oc. gexec (Step g) (run [Ends g (Panic p), Step g, Step g, Step g] s) =
                run [Ends g (Panic p), Step g, Step g, Step g] s \<and>
              gexec (Ends g oc) (run [Ends g (Panic p), Step g, Step g, Step g] s) =
                run [Ends g (Panic p), Step g, Step g, Step g] s)"
  proof
    assume n: "PanicHandler s = None"
    note e = task_panic_unhandled[OF assms(2,3,4) n refl pos, of p]
    have f: "\<forall>oc. gexec (Step g) (run [Ends g (Panic p), Step g, Step g, Step g] s) =
                run [Ends g (Panic p), Step g, Step g, Step g] s \<and>
              gexec (Ends g oc) (run [Ends g (Panic p), Step g, Step g, Step g] s) =
                run [Ends g (Panic p), Step g, Step g, Step g] s"
      unfolding e(3) using assms(3) by simp
    from e f show "run [Ends g (Panic p), Step g] s =
          s\<lparr>pool := (pool s)[g := (pool s ! g)\<lparr>pc := PcChildDone\<rparr>]\<rparr> \<and>
        run [Ends g (Panic p), Step g, Step g] s =
          s\<lparr>pool := (pool s)[g := (pool s ! g)\<lparr>pc := PcParentDone\<rparr>],
            heap := (heap s)[tw (pool s ! g) :=
              (heap s ! tw (pool s ! g))\<lparr>childWG := childWG (heap s ! tw (pool s ! g)) - 1\<rparr>]\<rparr> \<and>
        run [Ends g (Panic p), Step g, Step g, Step g] s =
          s\<lparr>pool := (pool s)[g := (pool s ! g)\<lparr>pc := PcExit\<rparr>],
            heap := (heap s)[tw (pool s ! g) :=
              (heap s ! tw (pool s ! g))\<lparr>childWG := childWG (heap s ! tw (pool s ! g)) - 1\<rparr>],
            parentWG := parentWG s - 1\<rparr> \<and>
        (\<forall>oc. gexec (Step g) (run [Ends g (Panic p), Step g, Step g, Step g] s) =
                run [Ends g (Panic p), Step g, Step g, Step g] s \<and>
              gexec (Ends g oc) (run [Ends g (Panic p), Step g, Step g, Step g] s) =
                run [Ends g (Panic p), Step g, Step g, Step g] s)"
      by blast
  qed
  from A B l pos show ?thesis by (intro conjI)
qed


theorem wrapper_recovers_task_panic_witness:
  "reachable weblin_started \<and> crashed weblin_started = None \<and>
   pc (pool weblin_started ! 0) = PcTask \<and> PanicHandler weblin_started \<noteq> None \<and>
   parentWG weblin_started = 1 \<and> childWG (heap weblin_started ! 0) = 1 \<and>
   handler_calls (run [Ends 0 (Panic ''boom''), Step 0] weblin_started) = [''boom''] \<and>
   parentWG (run [Ends 0 (Panic ''boom''), Step 0] weblin_started) = 1 \<and>
   childWG (heap (run [Ends 0 (Panic ''boom''), Step 0] weblin_started) ! 0) = 1 \<and>
   handler_calls (run [Ends 0 (Panic ''boom''), Step 0, Ends 0 Normal, Step 0, Step 0]
     weblin_started) = [''boom''] \<and>
   parentWG (run [Ends 0 (Panic ''boom''), Step 0, Ends 0 Normal, Step 0, Step 0]
     weblin_started) = 0 \<and>
   childWG (heap (run [Ends 0 (Panic ''boom''), Step 0, Ends 0 Normal, Step 0, Step 0]
     weblin_started) ! 0) = 0 \<and>
   crashed (run [Ends 0 (Panic ''boom''), Step 0, Ends 0 Normal, Step 0, Step 0]
     weblin_started) = None"
proof -
  have v: "crashed weblin_started = None" "0 < length (pool weblin_started)"
    "pc (pool weblin_started ! 0) = PcTask" "PanicHandler weblin_started \<noteq> None"
    "parentWG weblin_started = 1" "childWG (heap weblin_started ! 0) = 1"
    "tw (pool weblin_started ! 0) = 0" "handler_calls weblin_started = []"
    "length (heap weblin_started) = 1"
    by (simp_all add: weblin_started_eq)
  note th = wrapper_recovers_task_panic[OF reachable_weblin_started v(1,2,3), of "''boom''"]
  from th v(4) have e1: "run [Ends 0 (Panic ''boom''), Step 0] weblin_started =
      weblin_started\<lparr>pool := (pool weblin_started)[0 := (pool weblin_started ! 0)\<lparr>pc := PcHandler ''boom''\<rparr>],
        handler_calls := handler_calls weblin_started @ [''boom'']\<rparr>"
    by blast
  from th v(4) have e2: "run [Ends 0 (Panic ''boom''), Step 0, Ends 0 Normal, Step 0, Step 0] weblin_started =
      weblin_started\<lparr>pool := (pool weblin_started)[0 := (pool weblin_started ! 0)\<lparr>pc := PcExit\<rparr>],
        handler_calls := handler_calls weblin_started @ [''boom''],
        heap := (heap weblin_started)[tw (pool weblin_started ! 0) :=
          (heap weblin_started ! tw (pool weblin_started ! 0))
            \<lparr>childWG := childWG (heap weblin_started ! tw (pool weblin_started ! 0)) - 1\<rparr>],
        parentWG := parentWG weblin_started - 1\<rparr>"
    by blast
  show ?thesis
    unfolding e1 e2 using reachable_weblin_started v by simp
qed

text \<open>
  C2 as stated fails. The deferred function calls the handler after \<open>recover()\<close> and
  has no \<open>recover()\<close> of its own around that call: a panic of the handler ends the
  process, with both counters as they were and the goroutine still at the handler call.
\<close>

theorem handler_panic_escapes:
  "crashed handler_panics = Some ''handler failed'' \<and>
   parentWG handler_panics = parentWG weblin_started \<and>
   childWG (heap handler_panics ! 0) = childWG (heap weblin_started ! 0) \<and>
   parentWG handler_panics = 1 \<and>
   childWG (heap handler_panics ! 0) = 1 \<and>
   pc (pool handler_panics ! 0) = PcHandler ''task failed'' \<and>
   run [Step 0, Step 0] handler_panics = handler_panics"
  by (simp add: handler_panics_def weblin_started_eq model_defs)

text \<open>
  C2, amended. A panic of the handler is not recovered by the wrapper: it ends the process
  in the state it finds, so neither \<open>Done\<close> is executed, and nothing happens any more.
  The two \<open>Done\<close> calls are executed when the handler returns.
\<close>

theorem handler_panic_not_recovered:
  assumes "reachable s" "crashed s = None" "g < length (pool s)" "pc (pool s ! g) = PcHandler p"
  shows
    "gexec (Ends g (Panic q)) s = s\<lparr>crashed := Some q\<rparr> \<and>
     (\<forall>as. run as (s\<lparr>crashed := Some q\<rparr>) = s\<lparr>crashed := Some q\<rparr>) \<and>
     run [Ends g Normal, Step g, Step g] s =
       s\<lparr>pool := (pool s)[g := (pool s ! g)\<lparr>pc := PcExit\<rparr>],
         heap := (heap s)[tw (pool s ! g) :=
           (heap s ! tw (pool s ! g))\<lparr>childWG := childWG (heap s ! tw (pool s ! g)) - 1\<rparr>],
         parentWG := parentWG s - 1\<rparr>"
proof (intro conjI allI)
  show "gexec (Ends g (Panic q)) s = s\<lparr>crashed := Some q\<rparr>"
    using assms(2,3,4) by (simp add: crash_def)
  show "run as (s\<lparr>crashed := Some q\<rparr>) = s\<lparr>crashed := Some q\<rparr>" for as
  proof (induction as)
    case Nil show ?case by simp
  next
    case (Cons a as)
    have "gexec a (s\<lparr>crashed := Some q\<rparr>) = s\<lparr>crashed := Some q\<rparr>" by (cases a) simp_all
    with Cons show ?case by simp
  qed
  from assms(4) have hc: "holds_child (pc (pool s ! g))" by (simp add: holds_child_def)
  note pos = launched_counted[OF assms(1,3) hc]
  show "run [Ends g Normal, Step g, Step g] s =
       s\<lparr>pool := (pool s)[g := (pool s ! g)\<lparr>pc := PcExit\<rparr>],
         heap := (heap s)[tw (pool s ! g) :=
           (heap s ! tw (pool s ! g))\<lparr>childWG := childWG (heap s ! tw (pool s ! g)) - 1\<rparr>],
         parentWG := parentWG s - 1\<rparr>"
    using assms(2,3,4) pos
    by (simp add: set_pc_def childWG_Done_def parentWG_Done_def heap_upd_def)
qed

theorem handler_panic_not_recovered_witness:
  "reachable (run [Ends 0 (Panic ''task failed''), Step 0] weblin_started) \<and>
   crashed (run [Ends 0 (Panic ''task failed''), Step 0] weblin_started) = None \<and>
   pc (pool (run [Ends 0 (Panic ''task failed''), Step 0] weblin_started) ! 0) =
     PcHandler ''task failed'' \<and>
   crashed (gexec (Ends 0 (Panic ''handler failed''))
     (run [Ends 0 (Panic ''task failed''), Step 0] weblin_started)) = Some ''handler failed'' \<and>
   parentWG (gexec (Ends 0 (Panic ''handler failed''))
     (run [Ends 0 (Panic ''task failed''), Step 0] weblin_started)) = 1 \<and>
   parentWG (run [Ends 0 Normal, Step 0, Step 0]
     (run [Ends 0 (Panic ''task failed''), Step 0] weblin_started)) = 0"
proof -
  let ?s = "run [Ends 0 (Panic ''task failed''), Step 0] weblin_started"
  have r: "reachable ?s"
    using r_go[OF r_go[OF reachable_weblin_started, of "Ends 0 (Panic ''task failed'')"], of "Step 0"]
    by simp
  have v: "crashed ?s = None" "0 < length (pool ?s)" "pc (pool ?s ! 0) = PcHandler ''task failed''"
    "parentWG ?s = 1"
    by (simp_all add: weblin_started_eq model_defs)
  note th = handler_panic_not_recovered[OF r v(1,2,3), of "''handler failed''"]
  from th have a: "gexec (Ends 0 (Panic ''handler failed'')) ?s = ?s\<lparr>crashed := Some ''handler failed''\<rparr>"
    by blast
  from th have b: "run [Ends 0 Normal, Step 0, Step 0] ?s =
       ?s\<lparr>pool := (pool ?s)[0 := (pool ?s ! 0)\<lparr>pc := PcExit\<rparr>],
         heap := (heap ?s)[tw (pool ?s ! 0) :=
           (heap ?s ! tw (pool ?s ! 0))\<lparr>childWG := childWG (heap ?s ! tw (pool ?s ! 0)) - 1\<rparr>],
         parentWG := parentWG ?s - 1\<rparr>"
    by blast
  have c: "crashed (gexec (Ends 0 (Panic ''handler failed'')) ?s) = Some ''handler failed''"
    "parentWG (gexec (Ends 0 (Panic ''handler failed'')) ?s) = 1"
    unfolding a using v(4) by simp_all
  have d: "parentWG (run [Ends 0 Normal, Step 0, Step 0] ?s) = 0"
    unfolding b using v(4) by simp
  from r v(1,3) c d show ?thesis by blast
qed

end
